theory Spec2Isabelle
  imports Main
begin

section \<open>The CSS selector builder of 05-objects-tasks.js\<close>

text \<open>
  The source defines one object literal, \<^verbatim>\<open>cssSelectorBuilder\<close>, and every method
  creates its result with \<^verbatim>\<open>Object.create(cssSelectorBuilder)\<close>: an object with no
  property of its own whose prototype is that one literal. Reading a property of such
  an object gives the object's own value when it has been assigned and the literal's
  value otherwise; assigning a property always writes the object itself. Objects are
  shared by reference, so the model keeps them in an explicit store.
\<close>

subsection \<open>Errors\<close>

text \<open>\<^verbatim>\<open>throw new Error(msg)\<close>: the error value carries the message.\<close>

datatype error = Error string

definition twiceTimeError :: string where
  "twiceTimeError =
     ''Element, id and pseudo-element should not occur more then one time inside the selector''"

definition orderError :: string where
  "orderError =
     ''Selector parts should be arranged in the following order: element, id, class, attribute, pseudo-class, pseudo-element''"

subsection \<open>Objects and the store\<close>

text \<open>
  The data properties of the literal \<^verbatim>\<open>cssSelectorBuilder\<close>. The literal declares
  \<^verbatim>\<open>resultString\<close>, \<^verbatim>\<open>elementOrder\<close>, \<^verbatim>\<open>idOrder\<close> and \<^verbatim>\<open>pseudoOrder\<close>; it declares no
  \<^verbatim>\<open>order\<close>, which therefore reads \<^verbatim>\<open>undefined\<close> (\<open>None\<close>) until something assigns it.
\<close>

record root_obj =
  root_resultString :: string
  root_elementOrder :: nat
  root_idOrder :: nat
  root_pseudoOrder :: nat
  root_order :: "nat option"

text \<open>
  The own properties of an object made by \<^verbatim>\<open>Object.create(cssSelectorBuilder)\<close>:
  \<open>None\<close> is a property the object does not have, which is then read from the
  prototype.
\<close>

record obj =
  resultString :: "string option"
  elementOrder :: "nat option"
  idOrder :: "nat option"
  pseudoOrder :: "nat option"
  order :: "nat option"

definition empty_obj :: obj where
  "empty_obj = \<lparr>resultString = None, elementOrder = None, idOrder = None,
                 pseudoOrder = None, order = None\<rparr>"

text \<open>
  A reference is the literal itself or the \<open>i\<close>-th object created. The store holds
  the literal and the created objects in creation order.
\<close>

datatype ref = Root | Obj nat

record heap =
  rootObj :: root_obj
  objs :: "obj list"

definition init_heap :: heap where
  "init_heap =
     \<lparr>rootObj = \<lparr>root_resultString = [], root_elementOrder = 0, root_idOrder = 0,
                  root_pseudoOrder = 0, root_order = None\<rparr>,
      objs = []\<rparr>"

fun valid_ref :: "heap \<Rightarrow> ref \<Rightarrow> bool" where
  "valid_ref h Root = True"
| "valid_ref h (Obj i) = (i < length (objs h))"

subsection \<open>Property reads and writes\<close>

fun get_resultString :: "heap \<Rightarrow> ref \<Rightarrow> string" where
  "get_resultString h Root = root_resultString (rootObj h)"
| "get_resultString h (Obj i) =
     (case resultString (objs h ! i) of
        Some s \<Rightarrow> s
      | None \<Rightarrow> root_resultString (rootObj h))"

fun get_elementOrder :: "heap \<Rightarrow> ref \<Rightarrow> nat" where
  "get_elementOrder h Root = root_elementOrder (rootObj h)"
| "get_elementOrder h (Obj i) =
     (case elementOrder (objs h ! i) of
        Some n \<Rightarrow> n
      | None \<Rightarrow> root_elementOrder (rootObj h))"

fun get_idOrder :: "heap \<Rightarrow> ref \<Rightarrow> nat" where
  "get_idOrder h Root = root_idOrder (rootObj h)"
| "get_idOrder h (Obj i) =
     (case idOrder (objs h ! i) of
        Some n \<Rightarrow> n
      | None \<Rightarrow> root_idOrder (rootObj h))"

fun get_pseudoOrder :: "heap \<Rightarrow> ref \<Rightarrow> nat" where
  "get_pseudoOrder h Root = root_pseudoOrder (rootObj h)"
| "get_pseudoOrder h (Obj i) =
     (case pseudoOrder (objs h ! i) of
        Some n \<Rightarrow> n
      | None \<Rightarrow> root_pseudoOrder (rootObj h))"

text \<open>\<^verbatim>\<open>this.order\<close>: \<open>None\<close> is \<^verbatim>\<open>undefined\<close>.\<close>

fun get_order :: "heap \<Rightarrow> ref \<Rightarrow> nat option" where
  "get_order h Root = root_order (rootObj h)"
| "get_order h (Obj i) =
     (case order (objs h ! i) of
        Some n \<Rightarrow> Some n
      | None \<Rightarrow> root_order (rootObj h))"

fun set_resultString :: "heap \<Rightarrow> ref \<Rightarrow> string \<Rightarrow> heap" where
  "set_resultString h Root s = h\<lparr>rootObj := (rootObj h)\<lparr>root_resultString := s\<rparr>\<rparr>"
| "set_resultString h (Obj i) s =
     h\<lparr>objs := (objs h)[i := (objs h ! i)\<lparr>resultString := Some s\<rparr>]\<rparr>"

fun set_elementOrder :: "heap \<Rightarrow> ref \<Rightarrow> nat \<Rightarrow> heap" where
  "set_elementOrder h Root n = h\<lparr>rootObj := (rootObj h)\<lparr>root_elementOrder := n\<rparr>\<rparr>"
| "set_elementOrder h (Obj i) n =
     h\<lparr>objs := (objs h)[i := (objs h ! i)\<lparr>elementOrder := Some n\<rparr>]\<rparr>"

fun set_idOrder :: "heap \<Rightarrow> ref \<Rightarrow> nat \<Rightarrow> heap" where
  "set_idOrder h Root n = h\<lparr>rootObj := (rootObj h)\<lparr>root_idOrder := n\<rparr>\<rparr>"
| "set_idOrder h (Obj i) n =
     h\<lparr>objs := (objs h)[i := (objs h ! i)\<lparr>idOrder := Some n\<rparr>]\<rparr>"

fun set_pseudoOrder :: "heap \<Rightarrow> ref \<Rightarrow> nat \<Rightarrow> heap" where
  "set_pseudoOrder h Root n = h\<lparr>rootObj := (rootObj h)\<lparr>root_pseudoOrder := n\<rparr>\<rparr>"
| "set_pseudoOrder h (Obj i) n =
     h\<lparr>objs := (objs h)[i := (objs h ! i)\<lparr>pseudoOrder := Some n\<rparr>]\<rparr>"

fun set_order :: "heap \<Rightarrow> ref \<Rightarrow> nat \<Rightarrow> heap" where
  "set_order h Root n = h\<lparr>rootObj := (rootObj h)\<lparr>root_order := Some n\<rparr>\<rparr>"
| "set_order h (Obj i) n =
     h\<lparr>objs := (objs h)[i := (objs h ! i)\<lparr>order := Some n\<rparr>]\<rparr>"

text \<open>\<^verbatim>\<open>Object.create(cssSelectorBuilder)\<close>: a new object with no own property.\<close>

definition object_create :: "heap \<Rightarrow> heap \<times> ref" where
  "object_create h = (h\<lparr>objs := objs h @ [empty_obj]\<rparr>, Obj (length (objs h)))"

subsection \<open>The methods\<close>

text \<open>
  A method call takes the store and the receiver \<^verbatim>\<open>this\<close> and gives back the store
  as the call leaves it, with either the error thrown or the reference returned. A
  throw does not undo the writes made before it, so the store is returned in both
  cases.

  \<^verbatim>\<open>checkQueueCorrectness(num)\<close> throws when \<^verbatim>\<open>this.order > num\<close>; the comparison of
  \<^verbatim>\<open>undefined\<close> with a number is false.
\<close>

definition checkQueueCorrectness :: "heap \<Rightarrow> ref \<Rightarrow> nat \<Rightarrow> error option" where
  "checkQueueCorrectness h this num =
     (case get_order h this of
        None \<Rightarrow> None
      | Some k \<Rightarrow> if k > num then Some (Error orderError) else None)"

definition element :: "heap \<Rightarrow> ref \<Rightarrow> string \<Rightarrow> heap \<times> (error + ref)" where
  "element h this v =
     (case checkQueueCorrectness h this 1 of
        Some e \<Rightarrow> (h, Inl e)
      | None \<Rightarrow>
          (let (h1, builder) = object_create h;
               h2 = set_elementOrder h1 builder (get_elementOrder h1 this + 1)
           in if get_elementOrder h2 builder > 1 then (h2, Inl (Error twiceTimeError))
              else
                (let h3 = set_order h2 this 1;
                     h4 = set_resultString h3 builder
                            (get_resultString h3 builder @ (get_resultString h3 this @ v))
                 in (h4, Inr builder))))"

definition id_op :: "heap \<Rightarrow> ref \<Rightarrow> string \<Rightarrow> heap \<times> (error + ref)" where
  "id_op h this v =
     (case checkQueueCorrectness h this 2 of
        Some e \<Rightarrow> (h, Inl e)
      | None \<Rightarrow>
          (let (h1, builder) = object_create h;
               h2 = set_idOrder h1 builder (get_idOrder h1 this + 1);
               h3 = set_order h2 builder 2
           in if get_idOrder h3 builder > 1 then (h3, Inl (Error twiceTimeError))
              else
                (let h4 = set_resultString h3 builder (get_resultString h3 this @ ''#'' @ v)
                 in (h4, Inr builder))))"

definition class_op :: "heap \<Rightarrow> ref \<Rightarrow> string \<Rightarrow> heap \<times> (error + ref)" where
  "class_op h this v =
     (case checkQueueCorrectness h this 3 of
        Some e \<Rightarrow> (h, Inl e)
      | None \<Rightarrow>
          (let (h1, builder) = object_create h;
               h2 = set_order h1 builder 3;
               h3 = set_resultString h2 builder (get_resultString h2 this @ ''.'' @ v)
           in (h3, Inr builder)))"

definition attr :: "heap \<Rightarrow> ref \<Rightarrow> string \<Rightarrow> heap \<times> (error + ref)" where
  "attr h this v =
     (case checkQueueCorrectness h this 4 of
        Some e \<Rightarrow> (h, Inl e)
      | None \<Rightarrow>
          (let (h1, builder) = object_create h;
               h2 = set_order h1 builder 4;
               h3 = set_resultString h2 builder
                      (get_resultString h2 this @ ''['' @ v @ '']'')
           in (h3, Inr builder)))"

definition pseudoClass :: "heap \<Rightarrow> ref \<Rightarrow> string \<Rightarrow> heap \<times> (error + ref)" where
  "pseudoClass h this v =
     (case checkQueueCorrectness h this 5 of
        Some e \<Rightarrow> (h, Inl e)
      | None \<Rightarrow>
          (let (h1, builder) = object_create h;
               h2 = set_order h1 builder 5;
               h3 = set_resultString h2 builder (get_resultString h2 this @ '':'' @ v)
           in (h3, Inr builder)))"

definition pseudoElement :: "heap \<Rightarrow> ref \<Rightarrow> string \<Rightarrow> heap \<times> (error + ref)" where
  "pseudoElement h this v =
     (case checkQueueCorrectness h this 6 of
        Some e \<Rightarrow> (h, Inl e)
      | None \<Rightarrow>
          (let (h1, builder) = object_create h;
               h2 = set_pseudoOrder h1 builder (get_pseudoOrder h1 this + 1);
               h3 = set_order h2 builder 6
           in if get_pseudoOrder h3 builder > 1 then (h3, Inl (Error twiceTimeError))
              else
                (let h4 = set_resultString h3 builder (get_resultString h3 this @ ''::'' @ v)
                 in (h4, Inr builder))))"

text \<open>\<^verbatim>\<open>stringify()\<close> reads \<^verbatim>\<open>this.resultString\<close> and writes nothing.\<close>

definition stringify :: "heap \<Rightarrow> ref \<Rightarrow> string" where
  "stringify h this = get_resultString h this"

text \<open>\<^verbatim>\<open>combine(selector1, combinator, selector2)\<close> has no \<^verbatim>\<open>throw\<close> and does not read
  \<^verbatim>\<open>this\<close>.\<close>

definition combine :: "heap \<Rightarrow> ref \<Rightarrow> string \<Rightarrow> ref \<Rightarrow> heap \<times> ref" where
  "combine h selector1 combinator selector2 =
     (let (h1, builder) = object_create h;
          h2 = set_resultString h1 builder
                 (get_resultString h1 selector1 @ '' '' @ combinator @ '' '' @
                  get_resultString h1 selector2)
      in (h2, builder))"

subsection \<open>Chains of calls\<close>

text \<open>One part-adding call, by kind, with its argument.\<close>

datatype part =
    Element string
  | Id string
  | Class string
  | Attr string
  | PseudoClass string
  | PseudoElement string

fun apply_part :: "heap \<Rightarrow> ref \<Rightarrow> part \<Rightarrow> heap \<times> (error + ref)" where
  "apply_part h this (Element v) = element h this v"
| "apply_part h this (Id v) = id_op h this v"
| "apply_part h this (Class v) = class_op h this v"
| "apply_part h this (Attr v) = attr h this v"
| "apply_part h this (PseudoClass v) = pseudoClass h this v"
| "apply_part h this (PseudoElement v) = pseudoElement h this v"

text \<open>
  \<^verbatim>\<open>this.a(x).b(y)...\<close>: each call's receiver is the previous call's result, and the
  first throw ends the chain.
\<close>

fun run_chain :: "heap \<Rightarrow> ref \<Rightarrow> part list \<Rightarrow> heap \<times> (error + ref)" where
  "run_chain h this [] = (h, Inr this)"
| "run_chain h this (p # ps) =
     (case apply_part h this p of
        (h', Inl e) \<Rightarrow> (h', Inl e)
      | (h', Inr r) \<Rightarrow> run_chain h' r ps)"

text \<open>The position of each kind in the order named by \<^verbatim>\<open>orderError\<close>: the number the
  method passes to \<^verbatim>\<open>checkQueueCorrectness\<close>.\<close>

fun rank :: "part \<Rightarrow> nat" where
  "rank (Element v) = 1"
| "rank (Id v) = 2"
| "rank (Class v) = 3"
| "rank (Attr v) = 4"
| "rank (PseudoClass v) = 5"
| "rank (PseudoElement v) = 6"

text \<open>The text of one fragment.\<close>

fun render :: "part \<Rightarrow> string" where
  "render (Element v) = v"
| "render (Id v) = ''#'' @ v"
| "render (Class v) = ''.'' @ v"
| "render (Attr v) = ''['' @ v @ '']''"
| "render (PseudoClass v) = '':'' @ v"
| "render (PseudoElement v) = ''::'' @ v"

text \<open>
  What a client program has done so far: a sequence of calls, each on a reference it
  holds. A call that throws is caught and the program goes on with the store as the
  throw left it. A call naming an object that does not exist is not a program.
\<close>

datatype call = CallPart ref part | CallCombine ref string ref

fun exec :: "heap \<Rightarrow> call list \<Rightarrow> heap option" where
  "exec h [] = Some h"
| "exec h (CallPart this p # cs) =
     (if valid_ref h this then exec (fst (apply_part h this p)) cs else None)"
| "exec h (CallCombine a c b # cs) =
     (if valid_ref h a \<and> valid_ref h b then exec (fst (combine h a c b)) cs else None)"

subsection \<open>Auxiliary notions for the proofs\<close>

text \<open>
  The literal's own values as every method expects them: the declared properties
  hold their initial values, and \<^verbatim>\<open>order\<close> is still undefined or has become \<open>1\<close>.
\<close>

definition heap_ok :: "heap \<Rightarrow> bool" where
  "heap_ok h \<longleftrightarrow>
     root_resultString (rootObj h) = [] \<and> root_elementOrder (rootObj h) = 0 \<and>
     root_idOrder (rootObj h) = 0 \<and> root_pseudoOrder (rootObj h) = 0 \<and>
     (root_order (rootObj h) = None \<or> root_order (rootObj h) = Some 1)"

text \<open>
  What the methods read from an object that ends a chain whose last part has rank
  \<open>k\<close> (\<open>0\<close>: no part yet) and whose text is \<open>t\<close>. Only the counter of the last part
  is set: no method copies the other counters to the object it creates.
\<close>

definition chain_state :: "heap \<Rightarrow> ref \<Rightarrow> nat \<Rightarrow> string \<Rightarrow> bool" where
  "chain_state h r k t \<longleftrightarrow>
     valid_ref h r \<and> get_resultString h r = t \<and>
     (if k \<le> 1 then get_order h r = None \<or> get_order h r = Some 1
      else get_order h r = Some k) \<and>
     get_elementOrder h r = (if k = 1 then 1 else 0) \<and>
     get_idOrder h r = (if k = 2 then 1 else 0) \<and>
     get_pseudoOrder h r = (if k = 6 then 1 else 0)"

text \<open>The kinds the source counts: element, id and pseudo-element.\<close>

definition counted :: "part \<Rightarrow> bool" where
  "counted p \<longleftrightarrow> rank p = 1 \<or> rank p = 2 \<or> rank p = 6"

fun last_rank :: "nat \<Rightarrow> part list \<Rightarrow> nat" where
  "last_rank k [] = k"
| "last_rank k (p # ps) = last_rank (rank p) ps"

text \<open>
  The outcome of a chain as a function of the rank of the last part and the text so
  far; the proofs show that the methods compute it.
\<close>

fun chain_result :: "nat \<Rightarrow> string \<Rightarrow> part list \<Rightarrow> error + string" where
  "chain_result k t [] = Inr t"
| "chain_result k t (p # ps) =
     (if rank p < k then Inl (Error orderError)
      else if rank p = k \<and> counted p then Inl (Error twiceTimeError)
      else chain_result (rank p) (t @ render p) ps)"

text \<open>What a caller sees of a chain: the error thrown, or \<^verbatim>\<open>stringify()\<close> of the result.\<close>

definition outcome :: "heap \<times> (error + ref) \<Rightarrow> error + string" where
  "outcome x = (case snd x of Inl e \<Rightarrow> Inl e | Inr r \<Rightarrow> Inr (stringify (fst x) r))"

text \<open>An optional call, and the text of an optional fragment with its punctuation.\<close>

definition opt_part :: "(string \<Rightarrow> part) \<Rightarrow> string option \<Rightarrow> part list" where
  "opt_part K x = (case x of None \<Rightarrow> [] | Some v \<Rightarrow> [K v])"

definition opt_text :: "string \<Rightarrow> string option \<Rightarrow> string" where
  "opt_text pre x = (case x of None \<Rightarrow> [] | Some v \<Rightarrow> pre @ v)"

text \<open>
  The store after the single call \<^verbatim>\<open>cssSelectorBuilder.element('a')\<close> on a fresh
  module: the concrete store used to instantiate the theorems below.
\<close>

definition used_heap :: heap where
  "used_heap =
     \<lparr>rootObj = \<lparr>root_resultString = [], root_elementOrder = 0, root_idOrder = 0,
                  root_pseudoOrder = 0, root_order = Some 1\<rparr>,
      objs = [\<lparr>resultString = Some ''a'', elementOrder = Some 1, idOrder = None,
               pseudoOrder = None, order = None\<rparr>]\<rparr>"

section \<open>The JSON helpers of 05-objects-tasks.js\<close>

text \<open>
  \<^verbatim>\<open>getJSON\<close> and \<^verbatim>\<open>fromJSON\<close> (lines 40-42 and 55-60) pass their arguments to
  \<^verbatim>\<open>JSON.stringify\<close>, \<^verbatim>\<open>JSON.parse\<close>, the object spread and \<^verbatim>\<open>Object.setPrototypeOf\<close>.
  None of the four is code of the repository. They are modelled here from what the
  specification says of them (\<open>standard structured serialization\<close>; \<open>parses the string
  into a plain structured value, then associates it with the given prototype\<close>), read
  as the ECMAScript functions of those names.

  A string is its list of UTF-16 code units, given as numbers; \<open>units\<close> turns a
  literal of this text into code units.
\<close>

type_synonym jstring = "nat list"

definition units :: "string \<Rightarrow> jstring" where
  "units s = map of_char s"

abbreviation quote_mark :: nat where "quote_mark \<equiv> 34"

abbreviation backslash :: nat where "backslash \<equiv> 92"

text \<open>
  Modelled from the spec: the values \<^verbatim>\<open>JSON.stringify\<close> accepts without loss of kind
  (no \<^verbatim>\<open>undefined\<close>, no function): null, booleans, numbers, strings, arrays, and plain
  objects as the list of their own enumerable properties in enumeration order. The
  type \<open>'n\<close> of numbers is a parameter: IEEE doubles and their decimal rendering are
  not modelled, the functions below take the rendering and the reading of a number
  as arguments.
\<close>

datatype 'n jsvalue =
    JNull
  | JBool bool
  | JNum 'n
  | JStr jstring
  | JArr "'n jsvalue list"
  | JObj "(jstring \<times> 'n jsvalue) list"

text \<open>
  Modelled from the spec: an object has each property name once, at every depth.
\<close>

fun wf_value :: "'n jsvalue \<Rightarrow> bool" where
  "wf_value (JArr xs) = (\<forall>x \<in> set xs. wf_value x)"
| "wf_value (JObj kvs) = (distinct (map fst kvs) \<and> (\<forall>kv \<in> set kvs. wf_value (snd kv)))"
| "wf_value v = True"

subsection \<open>JSON.stringify\<close>

text \<open>
  Modelled from the spec: \<^verbatim>\<open>JSON.stringify\<close> of a string. The two-character escapes
  for backspace, tab, line feed, form feed, carriage return, the quotation mark and
  the backslash; \<^verbatim>\<open>\uXXXX\<close> with four lower-case hexadecimal digits for the other code
  units below 32 and for a surrogate that is not part of a pair; every other code
  unit as it is.
\<close>

definition hex_digit :: "nat \<Rightarrow> nat" where
  "hex_digit d = (if d < 10 then 48 + d else 87 + d)"

text \<open>Modelled from the spec: the escape \<^verbatim>\<open>\uXXXX\<close> of a code unit.\<close>

definition unicode_escape :: "nat \<Rightarrow> jstring" where
  "unicode_escape c =
     [backslash, 117, hex_digit (c div 4096 mod 16), hex_digit (c div 256 mod 16),
      hex_digit (c div 16 mod 16), hex_digit (c mod 16)]"

text \<open>Modelled from the spec: the leading surrogates, U+D800 to U+DBFF.\<close>

definition is_high :: "nat \<Rightarrow> bool" where
  "is_high c \<longleftrightarrow> 55296 \<le> c \<and> c \<le> 56319"

text \<open>Modelled from the spec: the trailing surrogates, U+DC00 to U+DFFF.\<close>

definition is_low :: "nat \<Rightarrow> bool" where
  "is_low c \<longleftrightarrow> 56320 \<le> c \<and> c \<le> 57343"

text \<open>Modelled from the spec: the text of one code unit that is not part of a
  surrogate pair.\<close>

definition quote_unit :: "nat \<Rightarrow> jstring" where
  "quote_unit c =
     (if c = 8 then [backslash, 98]
      else if c = 9 then [backslash, 116]
      else if c = 10 then [backslash, 110]
      else if c = 12 then [backslash, 102]
      else if c = 13 then [backslash, 114]
      else if c = quote_mark then [backslash, quote_mark]
      else if c = backslash then [backslash, backslash]
      else if c < 32 \<or> is_high c \<or> is_low c then unicode_escape c
      else [c])"

text \<open>Modelled from the spec: the text of the code units of a string; a leading
  surrogate followed by a trailing one is a pair and is copied.\<close>

fun quote_units :: "jstring \<Rightarrow> jstring" where
  "quote_units [] = []"
| "quote_units [c] = quote_unit c"
| "quote_units (c # d # ds) =
     (if is_high c \<and> is_low d then c # d # quote_units ds
      else quote_unit c @ quote_units (d # ds))"

text \<open>Modelled from the spec: a string between quotation marks.\<close>

definition quote_json_string :: "jstring \<Rightarrow> jstring" where
  "quote_json_string s = quote_mark # quote_units s @ [quote_mark]"

text \<open>
  Modelled from the spec: \<^verbatim>\<open>JSON.stringify(value)\<close> with no replacer and no indent.
  \<open>num_text\<close> is the rendering of a number. Elements are separated by a comma (44)
  between brackets (91, 93), members are name, colon (58), value, separated by a comma
  between braces (123, 125); no white space is written.
\<close>

fun stringify_value :: "('n \<Rightarrow> jstring) \<Rightarrow> 'n jsvalue \<Rightarrow> jstring"
  and stringify_elements :: "('n \<Rightarrow> jstring) \<Rightarrow> 'n jsvalue list \<Rightarrow> jstring"
  and stringify_members :: "('n \<Rightarrow> jstring) \<Rightarrow> (jstring \<times> 'n jsvalue) list \<Rightarrow> jstring"
where
  "stringify_value num_text JNull = units ''null''"
| "stringify_value num_text (JBool b) = (if b then units ''true'' else units ''false'')"
| "stringify_value num_text (JNum n) = num_text n"
| "stringify_value num_text (JStr s) = quote_json_string s"
| "stringify_value num_text (JArr xs) = [91] @ stringify_elements num_text xs @ [93]"
| "stringify_value num_text (JObj kvs) = [123] @ stringify_members num_text kvs @ [125]"
| "stringify_elements num_text [] = []"
| "stringify_elements num_text [x] = stringify_value num_text x"
| "stringify_elements num_text (x # y # ys) =
     stringify_value num_text x @ [44] @ stringify_elements num_text (y # ys)"
| "stringify_members num_text [] = []"
| "stringify_members num_text [(k, v)] =
     quote_json_string k @ [58] @ stringify_value num_text v"
| "stringify_members num_text ((k, v) # kv # kvs) =
     quote_json_string k @ [58] @ stringify_value num_text v @ [44] @
     stringify_members num_text (kv # kvs)"

subsection \<open>JSON.parse\<close>

text \<open>Modelled from the spec: JSON white space (space, tab, line feed, carriage
  return).\<close>

definition is_ws :: "nat \<Rightarrow> bool" where
  "is_ws c \<longleftrightarrow> c = 32 \<or> c = 9 \<or> c = 10 \<or> c = 13"

text \<open>Modelled from the spec: the value of a hexadecimal digit, in either case.\<close>

definition hex_val :: "nat \<Rightarrow> nat option" where
  "hex_val c =
     (if 48 \<le> c \<and> c \<le> 57 then Some (c - 48)
      else if 97 \<le> c \<and> c \<le> 102 then Some (c - 87)
      else if 65 \<le> c \<and> c \<le> 70 then Some (c - 55)
      else None)"

text \<open>Modelled from the spec: the code unit of a two-character escape of JSON text,
  by the character after the backslash.\<close>

definition unescape :: "nat \<Rightarrow> nat option" where
  "unescape e =
     (if e = quote_mark then Some quote_mark
      else if e = backslash then Some backslash
      else if e = 47 then Some 47
      else if e = 98 then Some 8
      else if e = 102 then Some 12
      else if e = 110 then Some 10
      else if e = 114 then Some 13
      else if e = 116 then Some 9
      else None)"

text \<open>Modelled from the spec: the code unit written by four hexadecimal digits.\<close>

fun hex4 :: "jstring \<Rightarrow> nat option" where
  "hex4 [h1, h2, h3, h4] =
     Option.bind (hex_val h1) (\<lambda>a.
     Option.bind (hex_val h2) (\<lambda>b.
     Option.bind (hex_val h3) (\<lambda>c.
     Option.bind (hex_val h4) (\<lambda>d. Some (4096 * a + 256 * b + 16 * c + d)))))"
| "hex4 hs = None"

text \<open>
  Modelled from the spec: one character of a JSON string, from its first code unit
  \<open>c\<close> and the text after it: the code unit it stands for and how many further code
  units it takes. A code unit below 32 is not allowed in a string.
\<close>

definition read_unit :: "nat \<Rightarrow> jstring \<Rightarrow> (nat \<times> nat) option" where
  "read_unit c cs =
     (if c = backslash then
        (case cs of
           [] \<Rightarrow> None
         | e # es \<Rightarrow>
             if e = 117 then map_option (\<lambda>u. (u, 5)) (hex4 (take 4 es))
             else map_option (\<lambda>u. (u, 1)) (unescape e))
      else if c < 32 then None
      else Some (c, 0))"

text \<open>Modelled from the spec: the characters of a JSON string after its opening
  quotation mark, up to the closing one, and the text that follows.\<close>

fun parse_chars :: "jstring \<Rightarrow> (jstring \<times> jstring) option" where
  "parse_chars [] = None"
| "parse_chars (c # cs) =
     (if c = quote_mark then Some ([], cs)
      else
        (case read_unit c cs of
           None \<Rightarrow> None
         | Some (u, k) \<Rightarrow> map_option (\<lambda>(s, r). (u # s, r)) (parse_chars (drop k cs))))"

text \<open>Modelled from the spec: the characters a JSON number is written with (digits,
  sign, point, exponent mark).\<close>

definition is_num_char :: "nat \<Rightarrow> bool" where
  "is_num_char c \<longleftrightarrow>
     (48 \<le> c \<and> c \<le> 57) \<or> c = 43 \<or> c = 45 \<or> c = 46 \<or> c = 69 \<or> c = 101"

text \<open>Modelled from the spec: a JSON number starts with a digit or the minus sign.\<close>

definition is_num_start :: "nat \<Rightarrow> bool" where
  "is_num_start c \<longleftrightarrow> (48 \<le> c \<and> c \<le> 57) \<or> c = 45"

text \<open>
  Modelled from the spec: defining a property while an object is parsed. A name
  that is already there keeps its place and takes the new value; a new name goes to
  the end.
\<close>

fun put_prop :: "jstring \<Rightarrow> 'v \<Rightarrow> (jstring \<times> 'v) list \<Rightarrow> (jstring \<times> 'v) list" where
  "put_prop k v [] = [(k, v)]"
| "put_prop k v (p # ps) = (if fst p = k then (k, v) # ps else p # put_prop k v ps)"

text \<open>
  Modelled from the spec: the object of the members of a JSON object, in the order of
  the text. (The runtime enumerates names that are array indices first; the order of
  the text is the enumeration order whenever the text was written by
  \<^verbatim>\<open>JSON.stringify\<close>, which writes the properties in enumeration order.)
\<close>

definition make_object :: "(jstring \<times> 'n jsvalue) list \<Rightarrow> 'n jsvalue" where
  "make_object kvs = JObj (foldl (\<lambda>ps (k, v). put_prop k v ps) [] kvs)"

text \<open>
  Modelled from the spec: the JSON grammar, as a parser that returns the value and
  the text after it. \<open>read_num\<close> is the reading of a number token: the number it
  denotes, \<open>None\<close> when the token is not a JSON number. The first argument after it
  bounds the depth of the recursion; \<open>json_parse\<close> passes the length of the text
  plus one, and the round trip below shows that this is enough for every text that
  \<open>stringify_value\<close> writes.
  \<open>parse_elements\<close> reads the elements of an array after its bracket, up to the
  closing one, \<open>parse_members\<close> the members of an object likewise.
\<close>

fun parse_value ::
    "(jstring \<Rightarrow> 'n option) \<Rightarrow> nat \<Rightarrow> jstring \<Rightarrow> ('n jsvalue \<times> jstring) option"
  and parse_elements ::
    "(jstring \<Rightarrow> 'n option) \<Rightarrow> nat \<Rightarrow> jstring \<Rightarrow> ('n jsvalue list \<times> jstring) option"
  and parse_members ::
    "(jstring \<Rightarrow> 'n option) \<Rightarrow> nat \<Rightarrow> jstring \<Rightarrow>
       ((jstring \<times> 'n jsvalue) list \<times> jstring) option"
where
  "parse_value read_num 0 s = None"
| "parse_value read_num (Suc f) s =
     (case dropWhile is_ws s of
        [] \<Rightarrow> None
      | c # cs \<Rightarrow>
          if c = 110 then
            (if take 3 cs = units ''ull'' then Some (JNull, drop 3 cs) else None)
          else if c = 116 then
            (if take 3 cs = units ''rue'' then Some (JBool True, drop 3 cs) else None)
          else if c = 102 then
            (if take 4 cs = units ''alse'' then Some (JBool False, drop 4 cs) else None)
          else if c = quote_mark then
            map_option (\<lambda>(str, r). (JStr str, r)) (parse_chars cs)
          else if c = 91 then
            (case dropWhile is_ws cs of
               [] \<Rightarrow> None
             | d # ds \<Rightarrow>
                 if d = 93 then Some (JArr [], ds)
                 else map_option (\<lambda>(xs, r). (JArr xs, r)) (parse_elements read_num f cs))
          else if c = 123 then
            (case dropWhile is_ws cs of
               [] \<Rightarrow> None
             | d # ds \<Rightarrow>
                 if d = 125 then Some (JObj [], ds)
                 else
                   map_option (\<lambda>(kvs, r). (make_object kvs, r))
                     (parse_members read_num f cs))
          else if is_num_start c then
            map_option (\<lambda>n. (JNum n, dropWhile is_num_char (c # cs)))
              (read_num (takeWhile is_num_char (c # cs)))
          else None)"
| "parse_elements read_num 0 s = None"
| "parse_elements read_num (Suc f) s =
     (case parse_value read_num f s of
        None \<Rightarrow> None
      | Some (x, r) \<Rightarrow>
          (case dropWhile is_ws r of
             [] \<Rightarrow> None
           | c # cs \<Rightarrow>
               if c = 44 then
                 map_option (\<lambda>(xs, r'). (x # xs, r')) (parse_elements read_num f cs)
               else if c = 93 then Some ([x], cs)
               else None))"
| "parse_members read_num 0 s = None"
| "parse_members read_num (Suc f) s =
     (case dropWhile is_ws s of
        [] \<Rightarrow> None
      | q # qs \<Rightarrow>
          if q \<noteq> quote_mark then None
          else
            (case parse_chars qs of
               None \<Rightarrow> None
             | Some (k, r) \<Rightarrow>
                 (case dropWhile is_ws r of
                    [] \<Rightarrow> None
                  | c # cs \<Rightarrow>
                      if c \<noteq> 58 then None
                      else
                        (case parse_value read_num f cs of
                           None \<Rightarrow> None
                         | Some (v, r') \<Rightarrow>
                             (case dropWhile is_ws r' of
                                [] \<Rightarrow> None
                              | e # es \<Rightarrow>
                                  if e = 44 then
                                    map_option (\<lambda>(kvs, r''). ((k, v) # kvs, r''))
                                      (parse_members read_num f es)
                                  else if e = 125 then Some ([(k, v)], es)
                                  else None)))))"

text \<open>
  Modelled from the spec: \<^verbatim>\<open>JSON.parse(text)\<close> with no reviver. \<open>None\<close> is the
  \<^verbatim>\<open>SyntaxError\<close> it throws; only white space may follow the value.
\<close>

definition json_parse :: "(jstring \<Rightarrow> 'n option) \<Rightarrow> jstring \<Rightarrow> 'n jsvalue option" where
  "json_parse read_num s =
     (case parse_value read_num (Suc (length s)) s of
        None \<Rightarrow> None
      | Some (v, r) \<Rightarrow> if dropWhile is_ws r = [] then Some v else None)"

subsection \<open>Objects, spread and prototypes\<close>

text \<open>Modelled from the spec: the decimal digits of a natural number, the name of
  an array index.\<close>

fun decimal :: "nat \<Rightarrow> jstring" where
  "decimal n = (if n < 10 then [48 + n] else decimal (n div 10) @ [48 + n mod 10])"

text \<open>Modelled from the spec: what a prototype can be: \<^verbatim>\<open>null\<close>,
  \<^verbatim>\<open>Object.prototype\<close>, or another object, named by a number.\<close>

datatype proto_ref = NullPrototype | ObjectPrototype | Proto nat

text \<open>Modelled from the spec: an object as \<^verbatim>\<open>fromJSON\<close> returns it: its own
  enumerable properties in order, and its prototype.\<close>

record 'n js_object =
  own_props :: "(jstring \<times> 'n jsvalue) list"
  prototype :: proto_ref

text \<open>
  Modelled from the spec: the own enumerable properties of a value, which the spread
  \<^verbatim>\<open>{...value}\<close> copies: the properties of an object, the indexed elements of an
  array, the indexed code units of a string, nothing for null, a boolean or a number.
\<close>

fun spread :: "'n jsvalue \<Rightarrow> (jstring \<times> 'n jsvalue) list" where
  "spread (JObj kvs) = kvs"
| "spread (JArr xs) = zip (map decimal [0..<length xs]) xs"
| "spread (JStr s) = zip (map decimal [0..<length s]) (map (\<lambda>c. JStr [c]) s)"
| "spread v = []"

text \<open>Modelled from the spec: an object literal: a new object with the given
  properties and the prototype \<^verbatim>\<open>Object.prototype\<close>.\<close>

definition object_literal :: "(jstring \<times> 'n jsvalue) list \<Rightarrow> 'n js_object" where
  "object_literal ps = \<lparr>own_props = ps, prototype = ObjectPrototype\<rparr>"

text \<open>Modelled from the spec: \<^verbatim>\<open>Object.setPrototypeOf(obj, proto)\<close> for a prototype
  that is an object or \<^verbatim>\<open>null\<close>.\<close>

definition setPrototypeOf :: "'n js_object \<Rightarrow> proto_ref \<Rightarrow> 'n js_object" where
  "setPrototypeOf obj proto = obj\<lparr>prototype := proto\<rparr>"

text \<open>Modelled from the spec: the error \<^verbatim>\<open>JSON.parse\<close> throws.\<close>

datatype js_error = SyntaxError

subsection \<open>getJSON and fromJSON\<close>

text \<open>Line 41: \<^verbatim>\<open>return JSON.stringify(obj)\<close>.\<close>

definition getJSON :: "('n \<Rightarrow> jstring) \<Rightarrow> 'n jsvalue \<Rightarrow> jstring" where
  "getJSON num_text obj = stringify_value num_text obj"

text \<open>
  Lines 56-59: \<^verbatim>\<open>obj = { ...JSON.parse(json) }\<close>, then
  \<^verbatim>\<open>Object.setPrototypeOf(obj, proto)\<close>, then \<^verbatim>\<open>return obj\<close>. The \<^verbatim>\<open>{}\<close> of line 56 is
  overwritten before it is read. A throw of \<^verbatim>\<open>JSON.parse\<close> leaves the function.
\<close>

definition fromJSON ::
  "(jstring \<Rightarrow> 'n option) \<Rightarrow> proto_ref \<Rightarrow> jstring \<Rightarrow> js_error + 'n js_object" where
  "fromJSON read_num proto json =
     (case json_parse read_num json of
        None \<Rightarrow> Inl SyntaxError
      | Some v \<Rightarrow>
          (let obj = object_literal (spread v);
               obj = setPrototypeOf obj proto
           in Inr obj))"

subsection \<open>Numbers\<close>

text \<open>
  Modelled from the spec: what the text of a number must be for the parser to find
  it again: not empty, starting with a digit or the minus sign, written with the
  characters of JSON numbers. The rendering of every finite Number is of this form.
\<close>

definition number_token :: "jstring \<Rightarrow> bool" where
  "number_token t \<longleftrightarrow> t \<noteq> [] \<and> is_num_start (hd t) \<and> list_all is_num_char t"

text \<open>
  Modelled from the spec: the Numbers that are integers, and negative zero, which
  is a Number of its own. This is the part of the Number type the examples below
  use; it is exact for integers of magnitude below \<open>2 ^ 53\<close>.
\<close>

datatype jsnum = NegZero | IntNum int

text \<open>Modelled from the spec: the rendering of a Number by \<^verbatim>\<open>JSON.stringify\<close>.
  Negative zero is written \<^verbatim>\<open>0\<close>.\<close>

fun number_to_string :: "jsnum \<Rightarrow> jstring" where
  "number_to_string NegZero = [48]"
| "number_to_string (IntNum i) =
     (if i < 0 then 45 # decimal (nat (- i)) else decimal (nat i))"

text \<open>Modelled from the spec: the number written by decimal digits.\<close>

definition digits_value :: "jstring \<Rightarrow> nat" where
  "digits_value ds = foldl (\<lambda>a d. 10 * a + (d - 48)) 0 ds"

text \<open>Modelled from the spec: the integer part of a JSON number: digits, with no
  leading zero before another digit.\<close>

definition is_digits :: "jstring \<Rightarrow> bool" where
  "is_digits ds \<longleftrightarrow>
     ds \<noteq> [] \<and> list_all (\<lambda>d. 48 \<le> d \<and> d \<le> 57) ds \<and> (hd ds = 48 \<longrightarrow> length ds = 1)"

text \<open>
  Modelled from the spec: the reading of a number token by \<^verbatim>\<open>JSON.parse\<close>, for the
  tokens with no fraction and no exponent; \<^verbatim>\<open>-0\<close> reads as negative zero. A token
  with a fraction or an exponent denotes a Number outside \<open>jsnum\<close> and gives \<open>None\<close>
  here.
\<close>

fun string_to_number :: "jstring \<Rightarrow> jsnum option" where
  "string_to_number [] = None"
| "string_to_number (c # cs) =
     (if c = 45 then
        (if is_digits cs then
           (if cs = [48] then Some NegZero else Some (IntNum (- int (digits_value cs))))
         else None)
      else if is_digits (c # cs) then Some (IntNum (int (digits_value (c # cs))))
      else None)"

text \<open>Modelled from the spec: the Number that the text of a Number reads back as:
  the Number itself, and zero for negative zero.\<close>

fun zero_sign :: "jsnum \<Rightarrow> jsnum" where
  "zero_sign NegZero = IntNum 0"
| "zero_sign (IntNum i) = IntNum i"


text \<open>Where a value may end in a text and where it may start: used to state what
  the parser does with the text of a value followed by more text.\<close>

definition value_end :: "jstring \<Rightarrow> bool" where
  "value_end r \<longleftrightarrow> (case r of [] \<Rightarrow> True | c # cs \<Rightarrow> \<not> is_num_char c)"

definition value_start :: "jstring \<Rightarrow> bool" where
  "value_start t \<longleftrightarrow>
     (case t of [] \<Rightarrow> False | c # cs \<Rightarrow> \<not> is_ws c \<and> c \<noteq> 93 \<and> c \<noteq> 125)"

section \<open>Properties of the selector builder\<close>

subsection \<open>The literal's own properties\<close>

lemma rootObj_element:
  "rootObj (fst (element h this v)) = rootObj h \<or>
   rootObj (fst (element h this v)) = (rootObj h)\<lparr>root_order := Some 1\<rparr>"
  by (cases this)
     (simp_all add: element_def object_create_def Let_def split: option.splits)

lemma rootObj_id_op: "rootObj (fst (id_op h this v)) = rootObj h"
  by (simp add: id_op_def object_create_def Let_def split: option.splits)

lemma rootObj_class_op: "rootObj (fst (class_op h this v)) = rootObj h"
  by (simp add: class_op_def object_create_def Let_def split: option.splits)

lemma rootObj_attr: "rootObj (fst (attr h this v)) = rootObj h"
  by (simp add: attr_def object_create_def Let_def split: option.splits)

lemma rootObj_pseudoClass: "rootObj (fst (pseudoClass h this v)) = rootObj h"
  by (simp add: pseudoClass_def object_create_def Let_def split: option.splits)

lemma rootObj_pseudoElement: "rootObj (fst (pseudoElement h this v)) = rootObj h"
  by (simp add: pseudoElement_def object_create_def Let_def split: option.splits)

lemma rootObj_apply_part:
  "rootObj (fst (apply_part h this p)) = rootObj h \<or>
   rootObj (fst (apply_part h this p)) = (rootObj h)\<lparr>root_order := Some 1\<rparr>"
  using rootObj_element [of h this]
  by (cases p)
     (simp_all add: rootObj_id_op rootObj_class_op rootObj_attr rootObj_pseudoClass
        rootObj_pseudoElement)

lemma heap_ok_apply_part: "heap_ok h \<Longrightarrow> heap_ok (fst (apply_part h this p))"
  using rootObj_apply_part [of h this p] by (auto simp: heap_ok_def)

lemma rootObj_combine: "rootObj (fst (combine h a c b)) = rootObj h"
  by (simp add: combine_def object_create_def Let_def)

lemma heap_ok_combine: "heap_ok h \<Longrightarrow> heap_ok (fst (combine h a c b))"
  by (simp add: heap_ok_def rootObj_combine)

lemma heap_ok_init: "heap_ok init_heap"
  by (simp add: heap_ok_def init_heap_def)

lemma exec_heap_ok: "heap_ok h \<Longrightarrow> exec h cs = Some h' \<Longrightarrow> heap_ok h'"
proof (induction cs arbitrary: h)
  case Nil
  then show ?case by simp
next
  case (Cons c cs)
  show ?case
  proof (cases c)
    case (CallPart this p)
    with Cons.prems have "exec (fst (apply_part h this p)) cs = Some h'"
      by (simp split: if_splits)
    with Cons.IH heap_ok_apply_part [OF Cons.prems(1)] show ?thesis by blast
  next
    case (CallCombine a s b)
    with Cons.prems have "exec (fst (combine h a s b)) cs = Some h'"
      by (simp split: if_splits)
    with Cons.IH heap_ok_combine [OF Cons.prems(1)] show ?thesis by blast
  qed
qed

subsection \<open>Reads after object creation\<close>

lemma get_resultString_create:
  "valid_ref h r \<Longrightarrow> get_resultString (h\<lparr>objs := objs h @ [x]\<rparr>) r = get_resultString h r"
  by (cases r) (simp_all add: nth_append split: option.splits)

lemma get_elementOrder_create:
  "valid_ref h r \<Longrightarrow> get_elementOrder (h\<lparr>objs := objs h @ [x]\<rparr>) r = get_elementOrder h r"
  by (cases r) (simp_all add: nth_append split: option.splits)

lemma get_idOrder_create:
  "valid_ref h r \<Longrightarrow> get_idOrder (h\<lparr>objs := objs h @ [x]\<rparr>) r = get_idOrder h r"
  by (cases r) (simp_all add: nth_append split: option.splits)

lemma get_pseudoOrder_create:
  "valid_ref h r \<Longrightarrow> get_pseudoOrder (h\<lparr>objs := objs h @ [x]\<rparr>) r = get_pseudoOrder h r"
  by (cases r) (simp_all add: nth_append split: option.splits)

lemma get_order_create:
  "valid_ref h r \<Longrightarrow> get_order (h\<lparr>objs := objs h @ [x]\<rparr>) r = get_order h r"
  by (cases r) (simp_all add: nth_append split: option.splits)

subsection \<open>The order check\<close>

lemma check_fails:
  "get_order h r = Some k \<Longrightarrow> num < k \<Longrightarrow>
   checkQueueCorrectness h r num = Some (Error orderError)"
  by (simp add: checkQueueCorrectness_def)

lemma check_passes:
  "get_order h r = None \<or> (\<exists>k. get_order h r = Some k \<and> k \<le> num) \<Longrightarrow>
   checkQueueCorrectness h r num = None"
  by (auto simp add: checkQueueCorrectness_def)

lemma check_chain_state:
  "chain_state h r k t \<Longrightarrow> k \<le> num \<Longrightarrow> 1 \<le> num \<Longrightarrow> checkQueueCorrectness h r num = None"
  by (rule check_passes) (auto simp: chain_state_def split: if_splits)

lemma step_order:
  assumes "chain_state h r k t" "rank p < k"
  shows "apply_part h r p = (h, Inl (Error orderError))"
proof -
  from assms(2) have "1 < k" by (cases p) auto
  with assms(1) have "get_order h r = Some k" by (simp add: chain_state_def)
  then have "checkQueueCorrectness h r (rank p) = Some (Error orderError)"
    using assms(2) by (rule check_fails)
  then show ?thesis
    by (cases p)
       (simp_all add: element_def id_op_def class_op_def attr_def pseudoClass_def
          pseudoElement_def)
qed

subsection \<open>The duplicate check\<close>

lemma element_twice:
  assumes "valid_ref h r" "checkQueueCorrectness h r 1 = None" "get_elementOrder h r = 1"
  shows "snd (element h r v) = Inl (Error twiceTimeError)"
  using assms get_elementOrder_create [OF assms(1), of empty_obj]
  unfolding element_def object_create_def
  by (simp add: Let_def)

lemma id_twice:
  assumes "valid_ref h r" "checkQueueCorrectness h r 2 = None" "get_idOrder h r = 1"
  shows "snd (id_op h r v) = Inl (Error twiceTimeError)"
  using assms get_idOrder_create [OF assms(1), of empty_obj]
  unfolding id_op_def object_create_def
  by (simp add: Let_def)

lemma pseudoElement_twice:
  assumes "valid_ref h r" "checkQueueCorrectness h r 6 = None" "get_pseudoOrder h r = 1"
  shows "snd (pseudoElement h r v) = Inl (Error twiceTimeError)"
  using assms get_pseudoOrder_create [OF assms(1), of empty_obj]
  unfolding pseudoElement_def object_create_def
  by (simp add: Let_def)

lemma step_twice:
  assumes "chain_state h r k t" "rank p = k" "counted p"
  shows "snd (apply_part h r p) = Inl (Error twiceTimeError)"
proof -
  have v: "valid_ref h r" using assms(1) by (simp add: chain_state_def)
  have c: "checkQueueCorrectness h r (rank p) = None"
    using assms by (intro check_chain_state [OF assms(1)]) (auto simp: counted_def)
  show ?thesis
  proof (cases p)
    case (Element x)
    with assms have "get_elementOrder h r = 1" by (simp add: chain_state_def)
    with Element c v show ?thesis by (simp add: element_twice)
  next
    case (Id x)
    with assms have "get_idOrder h r = 1" by (simp add: chain_state_def)
    with Id c v show ?thesis by (simp add: id_twice)
  next
    case (PseudoElement x)
    with assms have "get_pseudoOrder h r = 1" by (simp add: chain_state_def)
    with PseudoElement c v show ?thesis by (simp add: pseudoElement_twice)
  qed (use assms in \<open>simp_all add: counted_def\<close>)
qed

subsection \<open>A call that passes both checks\<close>

lemma element_ok:
  assumes "heap_ok h" "valid_ref h r" "checkQueueCorrectness h r 1 = None"
    "get_elementOrder h r = 0"
  shows "\<exists>r'. snd (element h r v) = Inr r' \<and>
          chain_state (fst (element h r v)) r' 1 (get_resultString h r @ v)"
proof (cases r)
  case Root
  then show ?thesis
    using assms unfolding element_def object_create_def
    by (simp add: chain_state_def heap_ok_def Let_def empty_obj_def)
next
  case (Obj i)
  then show ?thesis
    using assms unfolding element_def object_create_def
    by (simp add: chain_state_def heap_ok_def Let_def empty_obj_def nth_append
        split: option.splits)
qed

lemma id_op_ok:
  assumes "heap_ok h" "valid_ref h r" "checkQueueCorrectness h r 2 = None"
    "get_idOrder h r = 0"
  shows "\<exists>r'. snd (id_op h r v) = Inr r' \<and>
          chain_state (fst (id_op h r v)) r' 2 (get_resultString h r @ ''#'' @ v)"
proof (cases r)
  case Root
  then show ?thesis
    using assms unfolding id_op_def object_create_def
    by (simp add: chain_state_def heap_ok_def Let_def empty_obj_def)
next
  case (Obj i)
  then show ?thesis
    using assms unfolding id_op_def object_create_def
    by (simp add: chain_state_def heap_ok_def Let_def empty_obj_def nth_append
        split: option.splits)
qed

lemma class_op_ok:
  assumes "heap_ok h" "valid_ref h r" "checkQueueCorrectness h r 3 = None"
  shows "\<exists>r'. snd (class_op h r v) = Inr r' \<and>
          chain_state (fst (class_op h r v)) r' 3 (get_resultString h r @ ''.'' @ v)"
proof (cases r)
  case Root
  then show ?thesis
    using assms unfolding class_op_def object_create_def
    by (simp add: chain_state_def heap_ok_def Let_def empty_obj_def)
next
  case (Obj i)
  then show ?thesis
    using assms unfolding class_op_def object_create_def
    by (simp add: chain_state_def heap_ok_def Let_def empty_obj_def nth_append
        split: option.splits)
qed

lemma attr_ok:
  assumes "heap_ok h" "valid_ref h r" "checkQueueCorrectness h r 4 = None"
  shows "\<exists>r'. snd (attr h r v) = Inr r' \<and>
          chain_state (fst (attr h r v)) r' 4 (get_resultString h r @ ''['' @ v @ '']'')"
proof (cases r)
  case Root
  then show ?thesis
    using assms unfolding attr_def object_create_def
    by (simp add: chain_state_def heap_ok_def Let_def empty_obj_def)
next
  case (Obj i)
  then show ?thesis
    using assms unfolding attr_def object_create_def
    by (simp add: chain_state_def heap_ok_def Let_def empty_obj_def nth_append
        split: option.splits)
qed

lemma pseudoClass_ok:
  assumes "heap_ok h" "valid_ref h r" "checkQueueCorrectness h r 5 = None"
  shows "\<exists>r'. snd (pseudoClass h r v) = Inr r' \<and>
          chain_state (fst (pseudoClass h r v)) r' 5 (get_resultString h r @ '':'' @ v)"
proof (cases r)
  case Root
  then show ?thesis
    using assms unfolding pseudoClass_def object_create_def
    by (simp add: chain_state_def heap_ok_def Let_def empty_obj_def)
next
  case (Obj i)
  then show ?thesis
    using assms unfolding pseudoClass_def object_create_def
    by (simp add: chain_state_def heap_ok_def Let_def empty_obj_def nth_append
        split: option.splits)
qed

lemma pseudoElement_ok:
  assumes "heap_ok h" "valid_ref h r" "checkQueueCorrectness h r 6 = None"
    "get_pseudoOrder h r = 0"
  shows "\<exists>r'. snd (pseudoElement h r v) = Inr r' \<and>
          chain_state (fst (pseudoElement h r v)) r' 6 (get_resultString h r @ ''::'' @ v)"
proof (cases r)
  case Root
  then show ?thesis
    using assms unfolding pseudoElement_def object_create_def
    by (simp add: chain_state_def heap_ok_def Let_def empty_obj_def)
next
  case (Obj i)
  then show ?thesis
    using assms unfolding pseudoElement_def object_create_def
    by (simp add: chain_state_def heap_ok_def Let_def empty_obj_def nth_append
        split: option.splits)
qed

lemma step_ok:
  assumes "heap_ok h" "chain_state h r k t" "k \<le> rank p" "rank p = k \<longrightarrow> \<not> counted p"
  shows "\<exists>r'. snd (apply_part h r p) = Inr r' \<and>
          chain_state (fst (apply_part h r p)) r' (rank p) (t @ render p)"
proof -
  have v: "valid_ref h r" and t: "get_resultString h r = t"
    using assms(2) by (simp_all add: chain_state_def)
  have c: "checkQueueCorrectness h r (rank p) = None"
    using assms(3) by (intro check_chain_state [OF assms(2)]) (cases p; simp)+
  show ?thesis
  proof (cases p)
    case (Element x)
    with assms have "get_elementOrder h r = 0"
      by (auto simp: chain_state_def counted_def)
    with Element c v t element_ok [OF assms(1), of r x] show ?thesis by simp
  next
    case (Id x)
    with assms have "get_idOrder h r = 0"
      by (auto simp: chain_state_def counted_def)
    with Id c v t id_op_ok [OF assms(1), of r x] show ?thesis by simp
  next
    case (Class x)
    with c v t class_op_ok [OF assms(1), of r x] show ?thesis by simp
  next
    case (Attr x)
    with c v t attr_ok [OF assms(1), of r x] show ?thesis by simp
  next
    case (PseudoClass x)
    with c v t pseudoClass_ok [OF assms(1), of r x] show ?thesis by simp
  next
    case (PseudoElement x)
    with assms have "get_pseudoOrder h r = 0"
      by (auto simp: chain_state_def counted_def)
    with PseudoElement c v t pseudoElement_ok [OF assms(1), of r x] show ?thesis by simp
  qed
qed

subsection \<open>Chains\<close>

lemma run_chain_spec:
  assumes "heap_ok h" "chain_state h r k t"
  shows "heap_ok (fst (run_chain h r ps)) \<and>
         (case chain_result k t ps of
            Inl e \<Rightarrow> snd (run_chain h r ps) = Inl e
          | Inr s \<Rightarrow> \<exists>r'. snd (run_chain h r ps) = Inr r' \<and>
                      chain_state (fst (run_chain h r ps)) r' (last_rank k ps) s)"
  using assms
proof (induction ps arbitrary: h r k t)
  case Nil
  then show ?case by simp
next
  case (Cons p ps)
  obtain h1 res where ap: "apply_part h r p = (h1, res)" by (cases "apply_part h r p")
  have ok1: "heap_ok h1" using heap_ok_apply_part [OF Cons.prems(1), of r p] ap by simp
  consider (lower) "rank p < k" | (twice) "rank p = k" "counted p"
    | (ok) "k \<le> rank p" "rank p = k \<longrightarrow> \<not> counted p"
    by fastforce
  then show ?case
  proof cases
    case lower
    with step_order [OF Cons.prems(2) lower] show ?thesis
      using Cons.prems(1) by simp
  next
    case twice
    with step_twice [OF Cons.prems(2) twice] ap ok1 show ?thesis
      by simp
  next
    case ok
    from step_ok [OF Cons.prems ok] ap obtain r' where
      res: "res = Inr r'" and st: "chain_state h1 r' (rank p) (t @ render p)"
      by auto
    have nl: "\<not> rank p < k" using ok by simp
    from Cons.IH [OF ok1 st] ap res ok nl show ?thesis
      by (auto split: sum.splits)
  qed
qed

lemma outcome_run_chain:
  assumes "heap_ok h" "chain_state h r k t"
  shows "outcome (run_chain h r ps) = chain_result k t ps"
  using run_chain_spec [OF assms, of ps]
  by (cases "chain_result k t ps") (auto simp: outcome_def stringify_def chain_state_def)

lemma chain_state_Root: "heap_ok h \<Longrightarrow> chain_state h Root 0 []"
  by (auto simp: heap_ok_def chain_state_def)

text \<open>A chain that succeeds has non-decreasing ranks.\<close>

lemma chain_result_ranks:
  "chain_result k t ps = Inr s \<Longrightarrow>
   k \<le> last_rank k ps \<and> (\<forall>q \<in> set ps. rank q \<le> last_rank k ps) \<and>
   s = t @ concat (map render ps)"
proof (induction ps arbitrary: k t)
  case Nil
  then show ?case by simp
next
  case (Cons p ps)
  from Cons.prems have le: "k \<le> rank p" and
    rest: "chain_result (rank p) (t @ render p) ps = Inr s"
    by (simp_all split: if_splits)
  from Cons.IH [OF rest] le show ?case by auto
qed

lemma last_rank_last: "ps \<noteq> [] \<Longrightarrow> last_rank k ps = rank (last ps)"
  by (induction ps arbitrary: k) auto

lemma chain_result_append:
  "chain_result k t (xs @ ys) =
     (case chain_result k t xs of
        Inl e \<Rightarrow> Inl e
      | Inr s \<Rightarrow> chain_result (last_rank k xs) s ys)"
  by (induction xs arbitrary: k t) (auto split: sum.splits)

lemma last_rank_append: "last_rank k (xs @ ys) = last_rank (last_rank k xs) ys"
  by (induction xs arbitrary: k) auto

subsection \<open>Repeatable parts\<close>

lemma chain_result_classes:
  "k \<le> 3 \<Longrightarrow>
   chain_result k t (map Class xs @ ps) =
   chain_result (if xs = [] then k else 3) (t @ concat (map (\<lambda>c. ''.'' @ c) xs)) ps"
  by (induction xs arbitrary: k t) (simp_all add: counted_def)

lemma chain_result_attrs:
  "k \<le> 4 \<Longrightarrow>
   chain_result k t (map Attr xs @ ps) =
   chain_result (if xs = [] then k else 4) (t @ concat (map (\<lambda>a. ''['' @ a @ '']'') xs)) ps"
  by (induction xs arbitrary: k t) (simp_all add: counted_def)

lemma chain_result_pseudoClasses:
  "k \<le> 5 \<Longrightarrow>
   chain_result k t (map PseudoClass xs @ ps) =
   chain_result (if xs = [] then k else 5) (t @ concat (map (\<lambda>p. '':'' @ p) xs)) ps"
  by (induction xs arbitrary: k t) (simp_all add: counted_def)

lemma chain_result_tail:
  "k \<le> 2 \<Longrightarrow>
   chain_result k t
     (map Class cls @ map Attr ats @ map PseudoClass pcs @ opt_part PseudoElement pe) =
   Inr (t @ concat (map (\<lambda>c. ''.'' @ c) cls) @ concat (map (\<lambda>a. ''['' @ a @ '']'') ats) @
        concat (map (\<lambda>p. '':'' @ p) pcs) @ opt_text ''::'' pe)"
  by (cases pe)
     (simp_all add: chain_result_classes chain_result_attrs chain_result_pseudoClasses
        chain_result_pseudoClasses [where ps = "[]", simplified]
        opt_part_def opt_text_def counted_def)

lemma chain_result_head:
  "chain_result 0 [] (opt_part Element e @ opt_part Id i @ ps) =
   chain_result (case i of Some v \<Rightarrow> 2 | None \<Rightarrow> (case e of Some v \<Rightarrow> 1 | None \<Rightarrow> 0))
     (opt_text [] e @ opt_text ''#'' i) ps"
  by (cases e; cases i) (simp_all add: opt_part_def opt_text_def counted_def)

lemma chain_result_valid:
  "chain_result 0 []
     (opt_part Element e @ opt_part Id i @ map Class cls @ map Attr ats @
      map PseudoClass pcs @ opt_part PseudoElement pe) =
   Inr (opt_text [] e @ opt_text ''#'' i @ concat (map (\<lambda>c. ''.'' @ c) cls) @
        concat (map (\<lambda>a. ''['' @ a @ '']'') ats) @ concat (map (\<lambda>p. '':'' @ p) pcs) @
        opt_text ''::'' pe)"
proof -
  have "(case i of Some v \<Rightarrow> 2 | None \<Rightarrow> (case e of Some v \<Rightarrow> 1 | None \<Rightarrow> 0)) \<le> (2::nat)"
    by (simp split: option.splits)
  then show ?thesis
    unfolding chain_result_head by (simp only: chain_result_tail append_assoc)
qed

subsection \<open>Evaluating the methods on concrete stores\<close>

lemmas method_defs =
  element_def id_op_def class_op_def attr_def pseudoClass_def pseudoElement_def
  combine_def checkQueueCorrectness_def object_create_def empty_obj_def Let_def

lemma exec_used_heap: "exec init_heap [CallPart Root (Element ''a'')] = Some used_heap"
  by (simp add: method_defs init_heap_def used_heap_def)

subsection \<open>Chains that succeed\<close>

lemma errors_distinct: "twiceTimeError \<noteq> orderError"
  by (simp add: twiceTimeError_def orderError_def)

lemma run_chain_success:
  assumes "heap_ok h" "run_chain h Root ps = (h', Inr r)"
  shows "heap_ok h' \<and> chain_state h' r (last_rank 0 ps) (concat (map render ps)) \<and>
         (\<forall>q \<in> set ps. rank q \<le> last_rank 0 ps)"
proof (cases "chain_result 0 [] ps")
  case (Inl e)
  with run_chain_spec [OF assms(1) chain_state_Root [OF assms(1)], of ps] assms(2)
  show ?thesis by simp
next
  case (Inr s)
  with run_chain_spec [OF assms(1) chain_state_Root [OF assms(1)], of ps] assms(2)
    chain_result_ranks [OF Inr]
  show ?thesis by simp
qed

subsection \<open>What a throwing call leaves behind\<close>

lemma element_error:
  "element h this v = (h', Inl e) \<Longrightarrow>
   (h' = h \<and> e = Error orderError) \<or>
   ((\<exists>x. h' = h\<lparr>objs := objs h @ [x]\<rparr>) \<and> e = Error twiceTimeError)"
  by (auto simp: element_def checkQueueCorrectness_def object_create_def Let_def
      split: option.splits if_splits)

lemma id_op_error:
  "id_op h this v = (h', Inl e) \<Longrightarrow>
   (h' = h \<and> e = Error orderError) \<or>
   ((\<exists>x. h' = h\<lparr>objs := objs h @ [x]\<rparr>) \<and> e = Error twiceTimeError)"
  by (auto simp: id_op_def checkQueueCorrectness_def object_create_def Let_def
      split: option.splits if_splits)

lemma class_op_error:
  "class_op h this v = (h', Inl e) \<Longrightarrow> h' = h \<and> e = Error orderError"
  by (auto simp: class_op_def checkQueueCorrectness_def object_create_def Let_def
      split: option.splits if_splits)

lemma attr_error:
  "attr h this v = (h', Inl e) \<Longrightarrow> h' = h \<and> e = Error orderError"
  by (auto simp: attr_def checkQueueCorrectness_def object_create_def Let_def
      split: option.splits if_splits)

lemma pseudoClass_error:
  "pseudoClass h this v = (h', Inl e) \<Longrightarrow> h' = h \<and> e = Error orderError"
  by (auto simp: pseudoClass_def checkQueueCorrectness_def object_create_def Let_def
      split: option.splits if_splits)

lemma pseudoElement_error:
  "pseudoElement h this v = (h', Inl e) \<Longrightarrow>
   (h' = h \<and> e = Error orderError) \<or>
   ((\<exists>x. h' = h\<lparr>objs := objs h @ [x]\<rparr>) \<and> e = Error twiceTimeError)"
  by (auto simp: pseudoElement_def checkQueueCorrectness_def object_create_def Let_def
      split: option.splits if_splits)

lemma apply_part_error:
  assumes "apply_part h this p = (h', Inl e)"
  shows "(h' = h \<and> e = Error orderError) \<or>
         ((\<exists>x. h' = h\<lparr>objs := objs h @ [x]\<rparr>) \<and> e = Error twiceTimeError)"
proof (cases p)
  case (Element v)
  with assms show ?thesis using element_error [of h this v h' e] by simp
next
  case (Id v)
  with assms show ?thesis using id_op_error [of h this v h' e] by simp
next
  case (Class v)
  with assms show ?thesis using class_op_error [of h this v h' e] by simp
next
  case (Attr v)
  with assms show ?thesis using attr_error [of h this v h' e] by simp
next
  case (PseudoClass v)
  with assms show ?thesis using pseudoClass_error [of h this v h' e] by simp
next
  case (PseudoElement v)
  with assms show ?thesis using pseudoElement_error [of h this v h' e] by simp
qed

subsection \<open>Combining\<close>

lemma get_resultString_set_new:
  "valid_ref h r \<Longrightarrow>
   get_resultString (set_resultString (h\<lparr>objs := objs h @ [x]\<rparr>) (Obj (length (objs h))) s) r =
   get_resultString h r"
  by (cases r) (simp_all add: nth_append split: option.splits)

lemma combine_eq:
  "combine h a c b =
     (set_resultString (h\<lparr>objs := objs h @ [empty_obj]\<rparr>) (Obj (length (objs h)))
        (get_resultString (h\<lparr>objs := objs h @ [empty_obj]\<rparr>) a @ '' '' @ c @ '' '' @
         get_resultString (h\<lparr>objs := objs h @ [empty_obj]\<rparr>) b),
      Obj (length (objs h)))"
  by (simp add: combine_def object_create_def)

section \<open>Properties of the JSON helpers\<close>

subsection \<open>Strings: parsing what stringify wrote\<close>

lemma hex_val_hex_digit: "d < 16 \<Longrightarrow> hex_val (hex_digit d) = Some d"
  by (simp add: hex_val_def hex_digit_def)

lemma hex_decompose:
  assumes "c < 65536"
  shows "4096 * (c div 4096 mod 16) + 256 * (c div 256 mod 16) + 16 * (c div 16 mod 16) +
         c mod 16 = (c::nat)"
proof -
  have a: "c div 4096 mod 16 = c div 4096" using assms by simp
  have b: "c div 256 = 16 * (c div 4096) + c div 256 mod 16"
    using div_mult_mod_eq [of "c div 256" 16] by (simp add: div_mult2_eq [symmetric] mult.commute)
  have c: "c div 16 = 16 * (c div 256) + c div 16 mod 16"
    using div_mult_mod_eq [of "c div 16" 16] by (simp add: div_mult2_eq [symmetric] mult.commute)
  have d: "c = 16 * (c div 16) + c mod 16"
    using div_mult_mod_eq [of c 16] by (simp add: mult.commute)
  show ?thesis unfolding a using b c d by linarith
qed

lemma hex4_digits:
  assumes "a < 16" "b < 16" "c < 16" "d < 16"
  shows "hex4 [hex_digit a, hex_digit b, hex_digit c, hex_digit d] =
         Some (4096 * a + 256 * b + 16 * c + d)"
  by (simp add: hex_val_hex_digit assms)

lemma parse_chars_escape:
  assumes "c < 65536"
  shows "parse_chars (unicode_escape c @ rest) =
         map_option (\<lambda>(s, r). (c # s, r)) (parse_chars rest)"
proof -
  let ?a = "c div 4096 mod 16" and ?b = "c div 256 mod 16" and ?c = "c div 16 mod 16"
    and ?d = "c mod 16"
  have h: "hex4 [hex_digit ?a, hex_digit ?b, hex_digit ?c, hex_digit ?d] = Some c"
    by (subst hex4_digits) (simp_all only: hex_decompose [OF assms] pos_mod_bound zero_less_numeral)
  have r: "read_unit backslash (117 # hex_digit ?a # hex_digit ?b # hex_digit ?c # hex_digit ?d # rest)
           = Some (c, 5)"
    unfolding read_unit_def using h by simp
  have "parse_chars (backslash # 117 # hex_digit ?a # hex_digit ?b # hex_digit ?c # hex_digit ?d # rest) =
         map_option (\<lambda>(s, r). (c # s, r)) (parse_chars rest)"
    by (subst parse_chars.simps) (simp add: r)
  then show ?thesis by (simp only: unicode_escape_def append_Cons append_Nil)
qed

lemma parse_chars_quote_unit:
  "parse_chars (quote_unit c @ rest) = map_option (\<lambda>(s, r). (c # s, r)) (parse_chars rest)"
proof -
  consider (short) "c = 8 \<or> c = 9 \<or> c = 10 \<or> c = 12 \<or> c = 13 \<or> c = quote_mark \<or> c = backslash"
    | (esc) "\<not> (c = 8 \<or> c = 9 \<or> c = 10 \<or> c = 12 \<or> c = 13 \<or> c = quote_mark \<or> c = backslash)"
        "c < 32 \<or> is_high c \<or> is_low c"
    | (plain) "\<not> (c = 8 \<or> c = 9 \<or> c = 10 \<or> c = 12 \<or> c = 13 \<or> c = quote_mark \<or> c = backslash)"
        "\<not> (c < 32 \<or> is_high c \<or> is_low c)"
    by blast
  then show ?thesis
  proof cases
    case short
    then show ?thesis
      by (auto simp: quote_unit_def read_unit_def unescape_def)
  next
    case esc
    then have "c < 65536" by (auto simp: is_high_def is_low_def)
    from parse_chars_escape [OF this, of rest] esc show ?thesis
      by (simp add: quote_unit_def)
  next
    case plain
    then show ?thesis
      by (simp add: quote_unit_def read_unit_def)
  qed
qed

lemma parse_chars_pair:
  assumes "is_high c" "is_low d"
  shows "parse_chars (c # d # rest) = map_option (\<lambda>(s, r). (c # d # s, r)) (parse_chars rest)"
proof -
  have c: "read_unit c (d # rest) = Some (c, 0)" and cq: "c \<noteq> quote_mark"
    using assms(1) by (simp_all add: read_unit_def is_high_def)
  have d: "read_unit d rest = Some (d, 0)" and dq: "d \<noteq> quote_mark"
    using assms(2) by (simp_all add: read_unit_def is_low_def)
  show ?thesis
    by (cases "parse_chars rest") (auto simp: c cq d dq)
qed

lemma parse_chars_quote_units:
  "parse_chars (quote_units s @ quote_mark # rest) = Some (s, rest)"
proof (induction s rule: quote_units.induct)
  case 1
  show ?case by simp
next
  case (2 c)
  show ?case by (simp add: parse_chars_quote_unit)
next
  case (3 c d ds)
  show ?case
  proof (cases "is_high c \<and> is_low d")
    case True
    then have "quote_units (c # d # ds) = c # d # quote_units ds" by simp
    with True 3(1) show ?thesis
      by (simp add: parse_chars_pair del: parse_chars.simps)
  next
    case False
    then have "quote_units (c # d # ds) = quote_unit c @ quote_units (d # ds)" by auto
    with False 3(2) show ?thesis
      by (simp add: parse_chars_quote_unit del: parse_chars.simps quote_units.simps)
  qed
qed

lemma parse_chars_quote_json_string:
  "\<exists>t. quote_json_string s = quote_mark # t \<and> parse_chars (t @ rest) = Some (s, rest)"
  by (simp add: quote_json_string_def parse_chars_quote_units)

subsection \<open>Values: parsing what stringify wrote\<close>

lemma value_end_simps [simp]:
  "value_end []" "value_end (44 # r)" "value_end (93 # r)" "value_end (125 # r)"
  by (simp_all add: value_end_def is_num_char_def)

lemma not_ws_simps [simp]:
  "\<not> is_ws 44" "\<not> is_ws 58" "\<not> is_ws 91" "\<not> is_ws 93" "\<not> is_ws 123" "\<not> is_ws 125"
  "\<not> is_ws quote_mark" "\<not> is_ws 110" "\<not> is_ws 116" "\<not> is_ws 102"
  by (simp_all add: is_ws_def)

lemma num_start_not_ws: "is_num_start c \<Longrightarrow> \<not> is_ws c"
  by (auto simp: is_num_start_def is_ws_def)

lemma value_start_stringify:
  assumes "\<forall>n \<in> set_jsvalue v. number_token (num_text n)"
  shows "value_start (stringify_value num_text v)"
proof (cases v)
  case (JNum n)
  with assms have "number_token (num_text n)" by simp
  then obtain c cs where "num_text n = c # cs" "is_num_start c"
    by (cases "num_text n") (auto simp: number_token_def)
  with JNum show ?thesis
    by (auto simp: value_start_def is_num_start_def is_ws_def)
qed (simp_all add: value_start_def units_def quote_json_string_def)

lemma value_start_append: "value_start t \<Longrightarrow> value_start (t @ r)"
  by (cases t) (simp_all add: value_start_def)

lemma dropWhile_value_start: "value_start t \<Longrightarrow> dropWhile is_ws t = t"
  by (cases t) (simp_all add: value_start_def)

lemma number_scan:
  assumes "number_token t" "value_end r"
  shows "takeWhile is_num_char (t @ r) = t" "dropWhile is_num_char (t @ r) = r"
proof -
  have all: "\<forall>c \<in> set t. is_num_char c"
    using assms(1) by (simp add: number_token_def list_all_iff)
  have "takeWhile is_num_char r = []" "dropWhile is_num_char r = r"
    using assms(2) by (cases r; simp add: value_end_def)+
  with all show "takeWhile is_num_char (t @ r) = t" "dropWhile is_num_char (t @ r) = r"
    by (simp_all add: takeWhile_append2 dropWhile_append2)
qed

lemma parse_value_number:
  assumes "number_token (num_text n)" "read_num (num_text n) = Some m" "value_end r"
  shows "parse_value read_num (Suc f) (num_text n @ r) = Some (JNum m, r)"
proof -
  from assms(1) obtain c cs where t: "num_text n = c # cs" and c: "is_num_start c"
    by (cases "num_text n") (auto simp: number_token_def)
  have dw: "dropWhile is_ws (num_text n @ r) = c # cs @ r"
    using t num_start_not_ws [OF c] by simp
  have ne: "c \<noteq> 110" "c \<noteq> 116" "c \<noteq> 102" "c \<noteq> quote_mark" "c \<noteq> 91" "c \<noteq> 123"
    using c by (auto simp: is_num_start_def)
  have sc: "takeWhile is_num_char (c # cs @ r) = num_text n" "dropWhile is_num_char (c # cs @ r) = r"
    using number_scan [OF assms(1,3)] t by simp_all
  show ?thesis
    by (simp only: parse_value.simps dw list.case ne if_False c if_True sc assms(2)
        option.map)
qed

lemma stringify_elements_Cons:
  "\<exists>t. stringify_elements num_text (x # xs) = stringify_value num_text x @ t"
  by (cases xs) simp_all

lemma parse_elements_stringify:
  assumes "\<And>x g r. x \<in> set xs \<Longrightarrow> length (stringify_value num_text x) \<le> g \<Longrightarrow> value_end r \<Longrightarrow>
             parse_value read_num g (stringify_value num_text x @ r) = Some (F x, r)"
    and "xs \<noteq> []" "length (stringify_elements num_text xs) < g"
  shows "parse_elements read_num g (stringify_elements num_text xs @ 93 # r) = Some (map F xs, r)"
  using assms
proof (induction xs arbitrary: g)
  case Nil
  then show ?case by simp
next
  case (Cons x xs)
  from Cons.prems(3) obtain g' where g: "g = Suc g'" by (cases g) auto
  show ?case
  proof (cases xs)
    case Nil
    with Cons.prems(3) g have "length (stringify_value num_text x) \<le> g'" by simp
    from Cons.prems(1) [OF _ this, of "93 # r"]
    have "parse_value read_num g' (stringify_value num_text x @ 93 # r) = Some (F x, 93 # r)" by simp
    with Nil show ?thesis by (simp add: g)
  next
    case (Cons y ys)
    with Cons.prems(3) g have lx: "length (stringify_value num_text x) \<le> g'"
      and lr: "length (stringify_elements num_text xs) < g'"
      by simp_all
    from Cons.prems(1) [OF _ lx, of "44 # stringify_elements num_text xs @ 93 # r"]
    have px: "parse_value read_num g' (stringify_value num_text x @ 44 # stringify_elements num_text xs @ 93 # r) =
              Some (F x, 44 # stringify_elements num_text xs @ 93 # r)"
      by simp
    have "parse_elements read_num g' (stringify_elements num_text xs @ 93 # r) = Some (map F xs, r)"
      by (rule Cons.IH [OF Cons.prems(1) _ lr]) (simp_all add: Cons)
    with px Cons show ?thesis by (simp add: g)
  qed
qed

lemma stringify_members_Cons:
  "\<exists>t. stringify_members num_text ((k, x) # kvs) = quote_mark # t"
  by (cases kvs) (simp_all add: quote_json_string_def)

lemma parse_members_key:
  assumes "parse_value read_num g (stringify_value num_text x @ r) = Some (y, r)" "r = e # es"
    "e = 44 \<or> e = 125"
  shows "parse_members read_num (Suc g) (quote_json_string k @ 58 # stringify_value num_text x @ r) =
         (if e = 44 then map_option (\<lambda>(kvs, r''). ((k, y) # kvs, r'')) (parse_members read_num g es)
          else Some ([(k, y)], es))"
proof -
  obtain t where t: "quote_json_string k = quote_mark # t"
    and p: "parse_chars (t @ 58 # stringify_value num_text x @ r) = Some (k, 58 # stringify_value num_text x @ r)"
    using parse_chars_quote_json_string [of k "58 # stringify_value num_text x @ r"] by blast
  have ws: "dropWhile is_ws r = r" using assms(2,3) by auto
  show ?thesis
    using assms p ws by (auto simp: t)
qed

lemma parse_members_stringify:
  assumes "\<And>kv g r. kv \<in> set kvs \<Longrightarrow> length (stringify_value num_text (snd kv)) \<le> g \<Longrightarrow>
             value_end r \<Longrightarrow>
             parse_value read_num g (stringify_value num_text (snd kv) @ r) = Some (F (snd kv), r)"
    and "kvs \<noteq> []" "length (stringify_members num_text kvs) < g"
  shows "parse_members read_num g (stringify_members num_text kvs @ 125 # r) =
         Some (map (map_prod id F) kvs, r)"
  using assms
proof (induction kvs arbitrary: g)
  case Nil
  then show ?case by simp
next
  case (Cons kv kvs)
  obtain k x where kv: "kv = (k, x)" by (cases kv)
  from Cons.prems(3) obtain g' where g: "g = Suc g'" by (cases g) auto
  show ?case
  proof (cases kvs)
    case Nil
    with Cons.prems(3) g kv have "length (stringify_value num_text x) \<le> g'" by simp
    from Cons.prems(1) [of kv, OF _ _ value_end_simps(4), of g' r] this kv
    have "parse_value read_num g' (stringify_value num_text x @ 125 # r) = Some (F x, 125 # r)" by simp
    from parse_members_key [OF this, of 125 r k] Nil kv show ?thesis by (simp add: g id_def)
  next
    case (Cons kv' kvs')
    with Cons.prems(3) g kv have lx: "length (stringify_value num_text x) \<le> g'"
      and lr: "length (stringify_members num_text kvs) < g'"
      by simp_all
    from Cons.prems(1) [of kv, OF _ _ value_end_simps(2), of g' "stringify_members num_text kvs @ 125 # r"]
      lx kv
    have px: "parse_value read_num g' (stringify_value num_text x @ 44 # stringify_members num_text kvs @ 125 # r) =
              Some (F x, 44 # stringify_members num_text kvs @ 125 # r)"
      by simp
    have "parse_members read_num g' (stringify_members num_text kvs @ 125 # r) =
            Some (map (map_prod id F) kvs, r)"
      by (rule Cons.IH [OF Cons.prems(1) _ lr]) (simp_all add: Cons)
    with parse_members_key [OF px, of 44 "stringify_members num_text kvs @ 125 # r" k] Cons kv
    show ?thesis by (simp add: g id_def)
  qed
qed

lemma put_prop_new: "k \<notin> fst ` set ps \<Longrightarrow> put_prop k v ps = ps @ [(k, v)]"
  by (induction ps) auto

lemma foldl_put_prop:
  "distinct (map fst (acc @ kvs)) \<Longrightarrow>
   foldl (\<lambda>ps (k, v). put_prop k v ps) acc kvs = acc @ kvs"
proof (induction kvs arbitrary: acc)
  case Nil
  then show ?case by simp
next
  case (Cons kv kvs)
  obtain k v where kv: "kv = (k, v)" by (cases kv)
  from Cons.prems kv have "k \<notin> fst ` set acc" by auto
  then have "put_prop k v acc = acc @ [(k, v)]" by (rule put_prop_new)
  moreover from Cons.prems kv have "distinct (map fst ((acc @ [(k, v)]) @ kvs))" by simp
  ultimately show ?case using Cons.IH [of "acc @ [(k, v)]"] kv by simp
qed

lemma make_object_distinct:
  "distinct (map fst kvs) \<Longrightarrow> make_object (map (map_prod id F) kvs) = JObj (map (map_prod id F) kvs)"
  using foldl_put_prop [of "[]" "map (map_prod id F) kvs"]
  by (simp add: make_object_def comp_def)

lemma parse_value_stringify:
  assumes "\<forall>n \<in> set_jsvalue v. number_token (num_text n) \<and> read_num (num_text n) = Some (reread n)"
    and "wf_value v" "length (stringify_value num_text v) \<le> f" "value_end r"
  shows "parse_value read_num f (stringify_value num_text v @ r) = Some (map_jsvalue reread v, r)"
  using assms
proof (induction v arbitrary: f r)
  case JNull
  then obtain f' where "f = Suc f'" by (cases f) (auto simp: units_def)
  then show ?case by (simp add: units_def is_ws_def)
next
  case (JBool b)
  then obtain f' where "f = Suc f'" by (cases f) (auto simp: units_def split: if_splits)
  then show ?case by (simp add: units_def is_ws_def)
next
  case (JNum n)
  then obtain f' where f: "f = Suc f'" by (cases f) (auto simp: number_token_def)
  from JNum.prems(1) have "number_token (num_text n)" "read_num (num_text n) = Some (reread n)" by simp_all
  then have "parse_value read_num (Suc f') (num_text n @ r) = Some (JNum (reread n), r)"
    using JNum.prems(4) by (rule parse_value_number [of num_text n read_num "reread n" r f'])
  then show ?case by (simp add: f)
next
  case (JStr s)
  then obtain f' where f: "f = Suc f'" by (cases f) (auto simp: quote_json_string_def)
  obtain t where "quote_json_string s = quote_mark # t" "parse_chars (t @ r) = Some (s, r)"
    using parse_chars_quote_json_string [of s r] by blast
  then show ?case by (simp add: f)
next
  case (JArr xs)
  from JArr.prems(3) obtain f' where f: "f = Suc f'" and l: "length (stringify_elements num_text xs) < f'"
    by (cases f) auto
  show ?case
  proof (cases xs)
    case Nil
    then show ?thesis by (simp add: f)
  next
    case (Cons x xs')
    have el: "parse_elements read_num f' (stringify_elements num_text xs @ 93 # r) =
              Some (map (map_jsvalue reread) xs, r)"
    proof (rule parse_elements_stringify [OF _ _ l])
      fix x g r'
      assume "x \<in> set xs" "length (stringify_value num_text x) \<le> g" "value_end r'"
      with JArr.IH [of x g r'] JArr.prems(1,2)
      show "parse_value read_num g (stringify_value num_text x @ r') = Some (map_jsvalue reread x, r')"
        by auto
    qed (simp add: Cons)
    obtain t where t: "stringify_elements num_text xs = stringify_value num_text x @ t"
      using stringify_elements_Cons [of num_text x xs'] Cons by auto
    have "value_start (stringify_value num_text x)"
      using JArr.prems(1) Cons by (intro value_start_stringify) auto
    then have "value_start (stringify_elements num_text xs @ 93 # r)"
      unfolding t by (simp add: value_start_append)
    then obtain c cs where cs: "stringify_elements num_text xs @ 93 # r = c # cs"
      and c: "\<not> is_ws c" "c \<noteq> 93"
      by (cases "stringify_elements num_text xs @ 93 # r") (auto simp: value_start_def)
    show ?thesis
      using el c by (simp add: f cs)
  qed
next
  case (JObj kvs)
  from JObj.prems(3) obtain f' where f: "f = Suc f'" and l: "length (stringify_members num_text kvs) < f'"
    by (cases f) auto
  from JObj.prems(2) have d: "distinct (map fst kvs)" by simp
  show ?case
  proof (cases kvs)
    case Nil
    then show ?thesis by (simp add: f)
  next
    case (Cons kv kvs')
    have me: "parse_members read_num f' (stringify_members num_text kvs @ 125 # r) =
              Some (map (map_prod id (map_jsvalue reread)) kvs, r)"
    proof (rule parse_members_stringify [OF _ _ l])
      fix kv g r'
      assume "kv \<in> set kvs" "length (stringify_value num_text (snd kv)) \<le> g" "value_end r'"
      with JObj.IH [of kv "snd kv" g r'] JObj.prems(1,2)
      show "parse_value read_num g (stringify_value num_text (snd kv) @ r') = Some (map_jsvalue reread (snd kv), r')"
        by (cases kv) auto
    qed (simp add: Cons)
    obtain k x where kv: "kv = (k, x)" by (cases kv)
    obtain t where t: "stringify_members num_text kvs = quote_mark # t"
      using stringify_members_Cons [of num_text k x kvs'] Cons kv by auto
    show ?thesis
      using me by (simp add: f t make_object_distinct [OF d])
  qed
qed

lemma json_parse_stringify:
  assumes "\<forall>n \<in> set_jsvalue v. number_token (num_text n) \<and> read_num (num_text n) = Some (reread n)"
    and "wf_value v"
  shows "json_parse read_num (stringify_value num_text v) = Some (map_jsvalue reread v)"
  using parse_value_stringify [OF assms, of "Suc (length (stringify_value num_text v))" "[]"]
  by (simp add: json_parse_def)


subsection \<open>Integers and negative zero as numbers\<close>

lemma decimal_small: "n < 10 \<Longrightarrow> decimal n = [48 + n]"
  by (subst decimal.simps) simp

lemma decimal_large: "\<not> n < 10 \<Longrightarrow> decimal n = decimal (n div 10) @ [48 + n mod 10]"
  by (subst decimal.simps) simp

lemma decimal_digits: "list_all (\<lambda>d. 48 \<le> d \<and> d \<le> 57) (decimal n)"
proof (induction n rule: decimal.induct)
  case (1 n)
  show ?case
  proof (cases "n < 10")
    case True
    then show ?thesis by (simp add: decimal_small del: decimal.simps)
  next
    case False
    have "n mod 10 < 10" by simp
    then have "48 + n mod 10 \<le> 57" by linarith
    with 1 [OF False] False show ?thesis
      by (simp add: decimal_large del: decimal.simps)
  qed
qed

lemma decimal_not_Nil: "decimal n \<noteq> []"
  by (cases "n < 10") (simp_all add: decimal_small decimal_large del: decimal.simps)

lemma hd_decimal: "0 < n \<Longrightarrow> hd (decimal n) \<noteq> 48"
proof (induction n rule: decimal.induct)
  case (1 n)
  show ?case
  proof (cases "n < 10")
    case True
    with 1(2) show ?thesis by (simp add: decimal_small del: decimal.simps)
  next
    case False
    then have "0 < n div 10" by simp
    from 1(1) [OF False this] False show ?thesis
      by (simp add: decimal_large decimal_not_Nil del: decimal.simps)
  qed
qed

lemma length_decimal_zero: "hd (decimal n) = 48 \<Longrightarrow> length (decimal n) = 1"
proof (cases "n = 0")
  case True
  then show ?thesis by (simp add: decimal_small del: decimal.simps)
next
  case False
  then have "hd (decimal n) \<noteq> 48" by (intro hd_decimal) simp
  then show "hd (decimal n) = 48 \<Longrightarrow> ?thesis" by simp
qed

lemma is_digits_decimal: "is_digits (decimal n)"
  using decimal_digits [of n] length_decimal_zero [of n]
  by (simp add: is_digits_def decimal_not_Nil del: decimal.simps)

lemma digits_value_snoc: "digits_value (ds @ [d]) = 10 * digits_value ds + (d - 48)"
  by (simp add: digits_value_def)

lemma digits_value_decimal: "digits_value (decimal n) = n"
proof (induction n rule: decimal.induct)
  case (1 n)
  show ?case
  proof (cases "n < 10")
    case True
    then show ?thesis by (simp add: decimal_small digits_value_def del: decimal.simps)
  next
    case False
    with 1 [OF False] show ?thesis
      by (simp add: decimal_large digits_value_snoc del: decimal.simps)
  qed
qed

lemma decimal_eq_zero: "decimal n = [48] \<Longrightarrow> n = 0"
  using digits_value_decimal [of n] by (simp add: digits_value_def del: decimal.simps)

lemma hd_decimal_digit: "48 \<le> hd (decimal n) \<and> hd (decimal n) \<le> 57"
  using decimal_digits [of n] decimal_not_Nil [of n]
  by (cases "decimal n") (simp_all del: decimal.simps)

lemma number_token_number_to_string: "number_token (number_to_string n)"
proof (cases n)
  case NegZero
  then show ?thesis by (simp add: number_token_def is_num_start_def is_num_char_def)
next
  case (IntNum i)
  have d: "list_all is_num_char (decimal m)" for m
    using decimal_digits [of m] by (auto simp: list_all_iff is_num_char_def)
  have s: "is_num_start (hd (decimal m))" for m
    using hd_decimal_digit [of m] by (simp add: is_num_start_def)
  from IntNum d s show ?thesis
    by (simp add: number_token_def decimal_not_Nil is_num_start_def is_num_char_def
        del: decimal.simps)
qed

lemma string_to_number_number_to_string:
  "string_to_number (number_to_string n) = Some (zero_sign n)"
proof (cases n)
  case NegZero
  then show ?thesis by (simp add: is_digits_def digits_value_def)
next
  case (IntNum i)
  show ?thesis
  proof (cases "i < 0")
    case True
    then have "decimal (nat (- i)) \<noteq> [48]" using decimal_eq_zero [of "nat (- i)"] by auto
    with True IntNum show ?thesis
      by (simp add: is_digits_decimal digits_value_decimal del: decimal.simps)
  next
    case False
    obtain c cs where cs: "decimal (nat i) = c # cs"
      using decimal_not_Nil [of "nat i"] by (cases "decimal (nat i)") auto
    with hd_decimal_digit [of "nat i"] have c: "c \<noteq> 45" by auto
    have "is_digits (c # cs)" "digits_value (c # cs) = nat i"
      using is_digits_decimal [of "nat i"] digits_value_decimal [of "nat i"] cs by simp_all
    with False IntNum cs c show ?thesis
      by (simp del: decimal.simps)
  qed
qed

text \<open>
  With integers and negative zero for numbers the round trip needs no hypothesis on
  the numbers: every well-formed value comes back with its negative zeros turned
  into zeros and is otherwise unchanged.
\<close>

lemma integers_round_trip:
  fixes obj :: "jsnum jsvalue"
  assumes "wf_value obj"
  shows "fromJSON string_to_number proto (getJSON number_to_string obj) =
           Inr \<lparr>own_props = spread (map_jsvalue zero_sign obj), prototype = proto\<rparr>"
proof -
  have "json_parse string_to_number (stringify_value number_to_string obj) =
          Some (map_jsvalue zero_sign obj)"
    by (rule json_parse_stringify [OF _ assms])
       (simp add: number_token_number_to_string string_to_number_number_to_string)
  then show ?thesis
    by (simp add: fromJSON_def getJSON_def object_literal_def setPrototypeOf_def)
qed

section \<open>The claims\<close>

text \<open>
  C1. Every chain of calls on the root builder of the form element?, id?, class*,
  attr*, pseudoClass*, pseudoElement? runs without a throw, and \<^verbatim>\<open>stringify()\<close> of the
  result is the concatenation of the fragments: the element name bare, \<open>#\<close> before
  the id, \<open>.\<close> before each class, each attr between \<open>[\<close> and \<open>]\<close>, \<open>:\<close> before each
  pseudo-class and \<open>::\<close> before the pseudo-element, with nothing between them.
\<close>

theorem valid_chain_stringify:
  assumes "exec init_heap cs = Some h"
  shows "\<exists>h' r.
           run_chain h Root
             (opt_part Element e @ opt_part Id i @ map Class cls @ map Attr ats @
              map PseudoClass pcs @ opt_part PseudoElement pe) = (h', Inr r) \<and>
           stringify h' r =
             opt_text [] e @ opt_text ''#'' i @ concat (map (\<lambda>c. ''.'' @ c) cls) @
             concat (map (\<lambda>a. ''['' @ a @ '']'') ats) @
             concat (map (\<lambda>p. '':'' @ p) pcs) @ opt_text ''::'' pe"
proof -
  let ?ps = "opt_part Element e @ opt_part Id i @ map Class cls @ map Attr ats @
             map PseudoClass pcs @ opt_part PseudoElement pe"
  let ?txt = "opt_text [] e @ opt_text ''#'' i @ concat (map (\<lambda>c. ''.'' @ c) cls) @
              concat (map (\<lambda>a. ''['' @ a @ '']'') ats) @
              concat (map (\<lambda>p. '':'' @ p) pcs) @ opt_text ''::'' pe"
  have ok: "heap_ok h" by (rule exec_heap_ok [OF heap_ok_init assms])
  have res: "chain_result 0 [] ?ps = Inr ?txt" by (rule chain_result_valid)
  note sp = run_chain_spec [OF ok chain_state_Root [OF ok], of ?ps, unfolded res sum.case]
  then obtain r where a: "snd (run_chain h Root ?ps) = Inr r"
    and b: "chain_state (fst (run_chain h Root ?ps)) r (last_rank 0 ?ps) ?txt"
    by blast
  from b have "stringify (fst (run_chain h Root ?ps)) r = ?txt"
    unfolding chain_state_def stringify_def by blast
  with a show ?thesis by (metis prod.collapse)
qed

theorem valid_chain_stringify_witness:
  "exec init_heap [CallPart Root (Element ''a'')] = Some used_heap \<and>
   snd (run_chain used_heap Root
          [Element ''div'', Id ''main'', Class ''container'', Class ''draggable'',
           Attr ''href'', PseudoClass ''focus'', PseudoElement ''after'']) = Inr (Obj 7) \<and>
   stringify
     (fst (run_chain used_heap Root
             [Element ''div'', Id ''main'', Class ''container'', Class ''draggable'',
              Attr ''href'', PseudoClass ''focus'', PseudoElement ''after''])) (Obj 7) =
     ''div#main.container.draggable[href]:focus::after''"
proof -
  let ?ps = "[Element ''div'', Id ''main'', Class ''container'', Class ''draggable'',
              Attr ''href'', PseudoClass ''focus'', PseudoElement ''after'']"
  have s: "snd (run_chain used_heap Root ?ps) = Inr (Obj 7)"
    by (simp add: method_defs used_heap_def)
  from valid_chain_stringify [OF exec_used_heap, of "Some ''div''" "Some ''main''"
      "[''container'', ''draggable'']" "[''href'']" "[''focus'']" "Some ''after''"]
  obtain h' r where r: "run_chain used_heap Root ?ps = (h', Inr r)"
    and t: "stringify h' r = ''div#main.container.draggable[href]:focus::after''"
    by (auto simp: opt_part_def opt_text_def)
  from r s have "r = Obj 7" "h' = fst (run_chain used_heap Root ?ps)" by simp_all
  with t s exec_used_heap show ?thesis by simp
qed

text \<open>
  C2, as stated: a second \<^verbatim>\<open>element\<close>, \<^verbatim>\<open>id\<close> or \<^verbatim>\<open>pseudoElement\<close> call on a chain
  that already contains a part of that kind throws the duplicate error. It fails:
  after \<^verbatim>\<open>id('a').class('b')\<close> the call \<^verbatim>\<open>id('c')\<close> throws the order error, because
  the order check runs first and the object made by \<^verbatim>\<open>class\<close> has no \<^verbatim>\<open>idOrder\<close> of
  its own.
\<close>

theorem duplicate_after_other_part_counterexample:
  "snd (run_chain init_heap Root [Id ''a'', Class ''b'']) = Inr (Obj 1) \<and>
   snd (run_chain init_heap Root [Id ''a'', Class ''b'', Id ''c'']) = Inl (Error orderError) \<and>
   snd (run_chain init_heap Root [Id ''a'', Class ''b'', Id ''c'']) \<noteq>
     Inl (Error twiceTimeError)"
proof -
  have "snd (run_chain init_heap Root [Id ''a'', Class ''b'']) = Inr (Obj 1)"
    by (simp add: method_defs init_heap_def)
  moreover have "snd (run_chain init_heap Root [Id ''a'', Class ''b'', Id ''c'']) =
      Inl (Error orderError)"
    by (simp add: method_defs init_heap_def)
  ultimately show ?thesis using errors_distinct by simp
qed

text \<open>
  C2, amended. On a chain built from the root builder that already contains a part
  of the kind, a further \<^verbatim>\<open>element\<close>, \<^verbatim>\<open>id\<close> or \<^verbatim>\<open>pseudoElement\<close> call throws: the
  duplicate error when the last part of the chain is of that kind, and the order
  error when a part of another kind was added after it.
\<close>

theorem repeated_singleton_throws:
  assumes "exec init_heap cs = Some h" "run_chain h Root ps = (h', Inr r)"
    "q \<in> set ps" "rank q = rank p" "counted p"
  shows "snd (apply_part h' r p) =
           Inl (Error (if rank (last ps) = rank p then twiceTimeError else orderError))"
proof -
  have ok: "heap_ok h" by (rule exec_heap_ok [OF heap_ok_init assms(1)])
  from assms(3) have ne: "ps \<noteq> []" by auto
  from run_chain_success [OF ok assms(2)] last_rank_last [OF ne, of 0]
  have st: "chain_state h' r (rank (last ps)) (concat (map render ps))"
    and le: "\<forall>q \<in> set ps. rank q \<le> rank (last ps)"
    by simp_all
  from le assms(3,4) have "rank p \<le> rank (last ps)" by auto
  then consider "rank p = rank (last ps)" | "rank p < rank (last ps)" by linarith
  then show ?thesis
  proof cases
    case 1
    with step_twice [OF st 1 assms(5)] show ?thesis by simp
  next
    case 2
    with step_order [OF st 2] show ?thesis by simp
  qed
qed

theorem repeated_singleton_throws_witness:
  "exec init_heap [CallPart Root (Element ''a'')] = Some used_heap \<and>
   snd (run_chain used_heap Root [Element ''div'']) = Inr (Obj 1) \<and>
   Element ''div'' \<in> set [Element ''div''] \<and>
   rank (Element ''div'') = rank (Element ''span'') \<and> counted (Element ''span'') \<and>
   snd (apply_part (fst (run_chain used_heap Root [Element ''div''])) (Obj 1)
          (Element ''span'')) = Inl (Error twiceTimeError)"
proof -
  have s: "snd (run_chain used_heap Root [Element ''div'']) = Inr (Obj 1)"
    by (simp add: method_defs used_heap_def)
  then have r: "run_chain used_heap Root [Element ''div''] =
                  (fst (run_chain used_heap Root [Element ''div'']), Inr (Obj 1))"
    by (metis prod.collapse)
  have m: "Element ''div'' \<in> set [Element ''div'']"
    and k: "rank (Element ''div'') = rank (Element ''span'')"
    and c: "counted (Element ''span'')"
    by (simp_all add: counted_def)
  have l: "rank (last [Element ''div'']) = rank (Element ''span'')" by simp
  from repeated_singleton_throws [OF exec_used_heap r m k c] l
  have "snd (apply_part (fst (run_chain used_heap Root [Element ''div''])) (Obj 1)
          (Element ''span'')) = Inl (Error twiceTimeError)"
    by (simp only: simp_thms if_True)
  with s m k c exec_used_heap show ?thesis by blast
qed

text \<open>
  C3. For a chain built from the root builder, a call whose rank is lower than the
  rank of the last part of the chain throws the order error, and a call of the same
  rank does not throw the order error. In particular \<^verbatim>\<open>class('x').element('a')\<close> and
  \<^verbatim>\<open>id('x').element('a')\<close> throw it.
\<close>

theorem lower_rank_order_error:
  assumes "exec init_heap cs = Some h" "run_chain h Root ps = (h', Inr r)" "ps \<noteq> []"
  shows "(rank p < rank (last ps) \<longrightarrow> snd (apply_part h' r p) = Inl (Error orderError)) \<and>
         (rank p = rank (last ps) \<longrightarrow> snd (apply_part h' r p) \<noteq> Inl (Error orderError)) \<and>
         snd (run_chain h Root [Class x, Element a]) = Inl (Error orderError) \<and>
         snd (run_chain h Root [Id x, Element a]) = Inl (Error orderError)"
proof -
  have ok: "heap_ok h" by (rule exec_heap_ok [OF heap_ok_init assms(1)])
  from run_chain_success [OF ok assms(2)] last_rank_last [OF assms(3), of 0]
  have ok': "heap_ok h'" and st: "chain_state h' r (rank (last ps)) (concat (map render ps))"
    by simp_all
  have lower: "snd (apply_part h' r p) = Inl (Error orderError)" if "rank p < rank (last ps)"
    using step_order [OF st that] by simp
  have same: "snd (apply_part h' r p) \<noteq> Inl (Error orderError)" if eq: "rank p = rank (last ps)"
  proof (cases "counted p")
    case True
    from step_twice [OF st eq True] errors_distinct show ?thesis by simp
  next
    case False
    with step_ok [OF ok' st, of p] eq show ?thesis by auto
  qed
  have "snd (run_chain h Root [Class x, Element a]) = Inl (Error orderError)"
    using run_chain_spec [OF ok chain_state_Root [OF ok], of "[Class x, Element a]"]
    by (simp add: counted_def)
  moreover have "snd (run_chain h Root [Id x, Element a]) = Inl (Error orderError)"
    using run_chain_spec [OF ok chain_state_Root [OF ok], of "[Id x, Element a]"]
    by (simp add: counted_def)
  ultimately show ?thesis using lower same by blast
qed

theorem lower_rank_order_error_witness:
  "exec init_heap [CallPart Root (Element ''a'')] = Some used_heap \<and>
   snd (run_chain used_heap Root [Class ''c'']) = Inr (Obj 1) \<and>
   snd (apply_part (fst (run_chain used_heap Root [Class ''c''])) (Obj 1) (Id ''i'')) =
     Inl (Error orderError) \<and>
   snd (apply_part (fst (run_chain used_heap Root [Class ''c''])) (Obj 1) (Class ''d'')) \<noteq>
     Inl (Error orderError) \<and>
   snd (run_chain used_heap Root [Class ''x'', Element ''a'']) = Inl (Error orderError) \<and>
   snd (run_chain used_heap Root [Id ''x'', Element ''a'']) = Inl (Error orderError)"
proof -
  have s: "snd (run_chain used_heap Root [Class ''c'']) = Inr (Obj 1)"
    by (simp add: method_defs used_heap_def)
  then have r: "run_chain used_heap Root [Class ''c''] =
                  (fst (run_chain used_heap Root [Class ''c'']), Inr (Obj 1))"
    by (metis prod.collapse)
  have ne: "[Class ''c''] \<noteq> []" by simp
  have lt: "rank (Id ''i'') < rank (last [Class ''c''])"
    and eq: "rank (Class ''d'') = rank (last [Class ''c''])"
    by simp_all
  from lower_rank_order_error [OF exec_used_heap r ne, of "Id ''i''" "''x''" "''a''"]
    lower_rank_order_error [OF exec_used_heap r ne, of "Class ''d''" "''x''" "''a''"]
    lt eq s exec_used_heap
  show ?thesis by blast
qed

text \<open>
  C4. For builders \<open>a\<close> and \<open>b\<close> and any combinator string \<open>c\<close>,
  \<^verbatim>\<open>combine(a, c, b).stringify()\<close> is \<^verbatim>\<open>a.stringify()\<close>, one space, \<open>c\<close>, one space,
  \<^verbatim>\<open>b.stringify()\<close>, whatever \<open>c\<close> contains; \<open>a\<close> and \<open>b\<close> read the same before and
  after the call.
\<close>

theorem combine_stringify:
  assumes "valid_ref h a" "valid_ref h b" "combine h a c b = (h', r)"
  shows "stringify h' r = stringify h a @ '' '' @ c @ '' '' @ stringify h b \<and>
         stringify h' a = stringify h a \<and> stringify h' b = stringify h b"
proof -
  from assms(3) have h': "h' = set_resultString (h\<lparr>objs := objs h @ [empty_obj]\<rparr>)
        (Obj (length (objs h)))
        (get_resultString h a @ '' '' @ c @ '' '' @ get_resultString h b)"
    and r: "r = Obj (length (objs h))"
    unfolding combine_eq
    by (auto simp: get_resultString_create [OF assms(1)] get_resultString_create [OF assms(2)])
  have "get_resultString h' r = get_resultString h a @ '' '' @ c @ '' '' @ get_resultString h b"
    unfolding h' r by simp
  moreover have "get_resultString h' a = get_resultString h a"
    unfolding h' by (rule get_resultString_set_new [OF assms(1)])
  moreover have "get_resultString h' b = get_resultString h b"
    unfolding h' by (rule get_resultString_set_new [OF assms(2)])
  ultimately show ?thesis by (simp add: stringify_def)
qed

theorem combine_stringify_witness:
  "valid_ref used_heap (Obj 0) \<and> valid_ref used_heap Root \<and>
   snd (combine used_heap (Obj 0) ''+'' Root) = Obj 1 \<and>
   stringify used_heap (Obj 0) = ''a'' \<and> stringify used_heap Root = [] \<and>
   stringify (fst (combine used_heap (Obj 0) ''+'' Root)) (Obj 1) = ''a + '' \<and>
   stringify (fst (combine used_heap (Obj 0) ''+'' Root)) (Obj 0) = ''a''"
proof -
  have v: "valid_ref used_heap (Obj 0)" and w: "valid_ref used_heap Root"
    by (simp_all add: used_heap_def)
  have s: "snd (combine used_heap (Obj 0) ''+'' Root) = Obj 1"
    by (simp add: combine_eq used_heap_def)
  then have r: "combine used_heap (Obj 0) ''+'' Root =
      (fst (combine used_heap (Obj 0) ''+'' Root), Obj 1)"
    by (metis prod.collapse)
  have a: "stringify used_heap (Obj 0) = ''a''" and b: "stringify used_heap Root = []"
    by (simp_all add: stringify_def used_heap_def)
  from combine_stringify [OF v w r] v w s a b show ?thesis by simp
qed

text \<open>
  C5, at the input where the code departs from it. \<^verbatim>\<open>element\<close> assigns
  \<^verbatim>\<open>this.order = 1\<close>: called on the root builder of a fresh module it changes the
  root's \<^verbatim>\<open>order\<close> from undefined to \<open>1\<close>. The other methods assign
  \<^verbatim>\<open>builder.order\<close>, the new object's property; \<^verbatim>\<open>id\<close> at the same input leaves the root
  as it was.
\<close>

theorem element_writes_receiver:
  "root_order (rootObj init_heap) = None \<and>
   root_order (rootObj (fst (element init_heap Root ''a''))) = Some 1 \<and>
   rootObj (fst (id_op init_heap Root ''a'')) = rootObj init_heap"
  by (simp add: method_defs init_heap_def)

text \<open>
  C6. When a part-adding call throws, it throws one of the two errors, it returns no
  builder, and the receiver is as it was before the call: every property read from
  it, its text among them, gives the same value. The root object and every object
  that existed before the call are unchanged too.
\<close>

theorem error_atomicity:
  assumes "valid_ref h this" "apply_part h this p = (h', Inl e)"
  shows "(e = Error twiceTimeError \<or> e = Error orderError) \<and>
         rootObj h' = rootObj h \<and> take (length (objs h)) (objs h') = objs h \<and>
         get_resultString h' this = get_resultString h this \<and>
         get_order h' this = get_order h this \<and>
         get_elementOrder h' this = get_elementOrder h this \<and>
         get_idOrder h' this = get_idOrder h this \<and>
         get_pseudoOrder h' this = get_pseudoOrder h this"
proof -
  from apply_part_error [OF assms(2)]
  consider "h' = h" "e = Error orderError"
    | x where "h' = h\<lparr>objs := objs h @ [x]\<rparr>" "e = Error twiceTimeError"
    by blast
  then show ?thesis
  proof cases
    case 1
    then show ?thesis by simp
  next
    case 2
    then show ?thesis
      using assms(1)
      by (simp add: get_resultString_create get_order_create get_elementOrder_create
          get_idOrder_create get_pseudoOrder_create)
  qed
qed

theorem error_atomicity_witness:
  "valid_ref used_heap (Obj 0) \<and>
   snd (apply_part used_heap (Obj 0) (Element ''b'')) = Inl (Error twiceTimeError) \<and>
   rootObj (fst (apply_part used_heap (Obj 0) (Element ''b''))) = rootObj used_heap \<and>
   take (length (objs used_heap)) (objs (fst (apply_part used_heap (Obj 0) (Element ''b'')))) =
     objs used_heap \<and>
   get_resultString (fst (apply_part used_heap (Obj 0) (Element ''b''))) (Obj 0) =
     get_resultString used_heap (Obj 0) \<and>
   get_resultString used_heap (Obj 0) = ''a''"
proof -
  have v: "valid_ref used_heap (Obj 0)" by (simp add: used_heap_def)
  have s: "snd (apply_part used_heap (Obj 0) (Element ''b'')) = Inl (Error twiceTimeError)"
    by (simp add: method_defs used_heap_def)
  then have r: "apply_part used_heap (Obj 0) (Element ''b'') =
      (fst (apply_part used_heap (Obj 0) (Element ''b'')), Inl (Error twiceTimeError))"
    by (metis prod.collapse)
  have t: "get_resultString used_heap (Obj 0) = ''a''" by (simp add: used_heap_def)
  from error_atomicity [OF v r] v s t show ?thesis by blast
qed

text \<open>
  C7. \<^verbatim>\<open>combine\<close> and \<^verbatim>\<open>stringify\<close> have no throwing path. For any two builders and
  any combinator string \<^verbatim>\<open>combine\<close> returns a builder, a new object of the store, and
  leaves the root object and the objects that existed before as they were; for any
  builder \<^verbatim>\<open>stringify\<close> returns the builder's \<^verbatim>\<open>resultString\<close>.
\<close>

theorem combine_stringify_return:
  "(\<exists>h' r. combine h a c b = (h', r) \<and> valid_ref h' r \<and> r = Obj (length (objs h)) \<and>
            rootObj h' = rootObj h \<and> take (length (objs h)) (objs h') = objs h) \<and>
   stringify h s = get_resultString h s"
  by (simp add: combine_eq stringify_def)

text \<open>
  C8. A chain of part-adding calls started from the root builder gives the same
  outcome (the same error, or the same \<^verbatim>\<open>stringify()\<close> text) in a fresh module and
  after any program has run before it.
\<close>

theorem chain_outcome_independent:
  assumes "exec init_heap cs = Some h"
  shows "outcome (run_chain h Root ps) = outcome (run_chain init_heap Root ps)"
proof -
  have ok: "heap_ok h" by (rule exec_heap_ok [OF heap_ok_init assms])
  have "outcome (run_chain h Root ps) = chain_result 0 [] ps"
    by (rule outcome_run_chain [OF ok chain_state_Root [OF ok]])
  moreover have "outcome (run_chain init_heap Root ps) = chain_result 0 [] ps"
    by (rule outcome_run_chain [OF heap_ok_init chain_state_Root [OF heap_ok_init]])
  ultimately show ?thesis by simp
qed

theorem chain_outcome_independent_witness:
  "exec init_heap [CallPart Root (Element ''a'')] = Some used_heap \<and>
   outcome (run_chain used_heap Root [Id ''x'', Class ''y'']) = Inr ''#x.y'' \<and>
   outcome (run_chain init_heap Root [Id ''x'', Class ''y'']) = Inr ''#x.y''"
proof -
  have "outcome (run_chain init_heap Root [Id ''x'', Class ''y'']) = Inr ''#x.y''"
    by (simp add: method_defs init_heap_def outcome_def stringify_def)
  with chain_outcome_independent [OF exec_used_heap, of "[Id ''x'', Class ''y'']"]
    exec_used_heap
  show ?thesis by simp
qed

text \<open>
  C9. The root builder's \<^verbatim>\<open>stringify()\<close> returns the empty string, and it still does
  after any sequence of part-adding and combine calls made by a program on any
  builders it holds.
\<close>

theorem root_stringify_empty:
  assumes "exec init_heap cs = Some h"
  shows "stringify h Root = []"
  using exec_heap_ok [OF heap_ok_init assms]
  by (simp add: stringify_def heap_ok_def)

theorem root_stringify_empty_witness:
  "exec init_heap [CallPart Root (Element ''a'')] = Some used_heap \<and>
   stringify used_heap Root = []"
  using root_stringify_empty [OF exec_used_heap] exec_used_heap by simp




end
